theory Spec2Isabelle
  imports Main "HOL-Library.Log_Nat"
begin

unbundle bit_operations_syntax

section \<open>Python values used by lfsr.py\<close>

text \<open>
  The two classes of \<^verbatim>\<open>src/lfsr/lfsr.py\<close> work on Python integers and on the binary
  strings that \<^verbatim>\<open>format\<close> and \<^verbatim>\<open>int(_, 2)\<close> produce and read. Integers are
  \<^typ>\<open>int\<close>, strings are \<^typ>\<open>string\<close>, and every exception the code can raise is a
  value of \<open>error\<close>, returned as \<open>Inl\<close>.
\<close>

datatype error = ValueError | TypeError | IndexError | OverflowError

subsection \<open>Rendering integers\<close>

definition digit_char :: "nat \<Rightarrow> char" where
  "digit_char d = ''0123456789'' ! d"

text \<open>The digits of a natural number in base 2 (\<^verbatim>\<open>format(n, 'b')\<close>) and in base 10
  (\<^verbatim>\<open>str(n)\<close>), most significant first; zero is rendered as one digit.\<close>

fun bin_digits :: "nat \<Rightarrow> string" where
  "bin_digits n = (if n < 2 then [digit_char n] else bin_digits (n div 2) @ [digit_char (n mod 2)])"

fun dec_digits :: "nat \<Rightarrow> string" where
  "dec_digits n = (if n < 10 then [digit_char n] else dec_digits (n div 10) @ [digit_char (n mod 10)])"

declare bin_digits.simps [simp del] dec_digits.simps [simp del]

definition zero_pad :: "nat \<Rightarrow> string \<Rightarrow> string" where
  "zero_pad w s = replicate (w - length s) (CHR ''0'') @ s"

text \<open>\<^verbatim>\<open>f'{n:0{w}b}'\<close>: sign-aware zero padding to a total width of at least \<open>w\<close>;
  a wider number is not truncated. \<^verbatim>\<open>f'{n:0b}'\<close> is the case \<open>w = 0\<close>.\<close>

definition format_0b :: "nat \<Rightarrow> int \<Rightarrow> string" where
  "format_0b w n =
     (if n < 0 then CHR ''-'' # zero_pad (w - 1) (bin_digits (nat (- n)))
      else zero_pad w (bin_digits (nat n)))"

text \<open>\<^verbatim>\<open>str(n)\<close>.\<close>

definition str_int :: "int \<Rightarrow> string" where
  "str_int n = (if n < 0 then CHR ''-'' # dec_digits (nat (- n)) else dec_digits (nat n))"

subsection \<open>Parsing integers\<close>

text \<open>\<^verbatim>\<open>int(s, 2)\<close> on the strings this program builds (they hold only a sign and
  decimal digits): an optional leading minus, then at least one binary digit; anything
  else raises ValueError.\<close>

fun bin_value :: "nat \<Rightarrow> string \<Rightarrow> error + nat" where
  "bin_value acc [] = Inr acc"
| "bin_value acc (c # cs) =
     (if c = CHR ''0'' then bin_value (2 * acc) cs
      else if c = CHR ''1'' then bin_value (2 * acc + 1) cs
      else Inl ValueError)"

definition int_base2 :: "string \<Rightarrow> error + int" where
  "int_base2 s =
     (case s of
        [] \<Rightarrow> Inl ValueError
      | c # cs \<Rightarrow>
          (if c = CHR ''-'' then
             (if cs = [] then Inl ValueError
              else (case bin_value 0 cs of Inl e \<Rightarrow> Inl e | Inr v \<Rightarrow> Inr (- int v)))
           else (case bin_value 0 s of Inl e \<Rightarrow> Inl e | Inr v \<Rightarrow> Inr (int v))))"

text \<open>\<^verbatim>\<open>[int(x, 2) for x in s]\<close>: the first character that is not a binary digit
  (the sign of a negative state) raises ValueError.\<close>

fun state_elab_of :: "string \<Rightarrow> error + int list" where
  "state_elab_of [] = Inr []"
| "state_elab_of (c # cs) =
     (case int_base2 [c] of
        Inl e \<Rightarrow> Inl e
      | Inr b \<Rightarrow> (case state_elab_of cs of Inl e \<Rightarrow> Inl e | Inr bs \<Rightarrow> Inr (b # bs)))"

text \<open>\<^verbatim>\<open>int(''.join([str(x) for x in elab]), 2)\<close>.\<close>

definition int_of_elab :: "int list \<Rightarrow> error + int" where
  "int_of_elab elab = int_base2 (concat (map str_int elab))"

text \<open>\<^verbatim>\<open>reduce(lambda x, y: x ^ y, xs)\<close> without an initial value: TypeError on the
  empty list.\<close>

fun reduce_xor :: "int list \<Rightarrow> error + int" where
  "reduce_xor [] = Inl TypeError"
| "reduce_xor (x # xs) = Inr (foldl (XOR) x xs)"

section \<open>The registers\<close>

text \<open>
  Both classes keep the same attributes: \<^verbatim>\<open>poly\<close>, \<^verbatim>\<open>state\<close>,
  \<^verbatim>\<open>__state_init\<close> and \<^verbatim>\<open>field_order\<close>. The attributes \<^verbatim>\<open>state_elab\<close> and
  \<^verbatim>\<open>__feedback\<close> are scratch space of one round: each round overwrites them before
  reading them, so they are local values here. The closure \<^verbatim>\<open>__round\<close> captures
  \<^verbatim>\<open>poly_str\<close>; it is rebuilt by every \<^verbatim>\<open>__init__\<close>, the only place that assigns
  \<^verbatim>\<open>poly\<close> and \<^verbatim>\<open>field_order\<close>, so it is recomputed from them.
\<close>

record register =
  poly :: int
  state :: int
  state_init :: int
  field_order :: nat

text \<open>The methods \<^verbatim>\<open>cycle\<close>, \<^verbatim>\<open>full_cycle\<close> and \<^verbatim>\<open>state_table\<close> have the same
  text in both classes and differ only in the round function they call, which is a
  parameter of the loops.\<close>

fun rounds_loop :: "(register \<Rightarrow> error + register) \<Rightarrow> nat \<Rightarrow> register \<Rightarrow> error + register" where
  "rounds_loop rnd 0 r = Inr r"
| "rounds_loop rnd (Suc n) r =
     (case rnd r of Inl e \<Rightarrow> Inl e | Inr r' \<Rightarrow> rounds_loop rnd n r')"

record state_table =
  Cycle :: "int list"
  State :: "int list"
  Register_State :: "string list"

fun table_loop ::
  "(register \<Rightarrow> error + register) \<Rightarrow> nat list \<Rightarrow> register \<Rightarrow> state_table
     \<Rightarrow> error + (register \<times> state_table)" where
  "table_loop rnd [] r t = Inr (r, t)"
| "table_loop rnd (x # xs) r t =
     (case rnd r of
        Inl e \<Rightarrow> Inl e
      | Inr r' \<Rightarrow>
          table_loop rnd xs r'
            \<lparr>Cycle = Cycle t @ [int x],
             State = State t @ [state r],
             Register_State = Register_State t @ [format_0b (field_order r) (state r)]\<rparr>)"

subsection \<open>class LFSR (the Fibonacci register)\<close>

text \<open>
  \<^verbatim>\<open>ceil(log(self.poly, 2).real)\<close> with \<^verbatim>\<open>cmath.log\<close>. The argument is converted to
  a double, which raises OverflowError from \<open>2 ^ 1024 - 2 ^ 970\<close> on, the least integer
  that rounds beyond the largest double. For 0 the logarithm is \<^verbatim>\<open>-inf+nanj\<close> and
  \<^verbatim>\<open>ceil\<close> of the infinite real part raises OverflowError. For 1 and -1 the real part
  is the zero that the logarithm of 1 is in every IEEE arithmetic. For every other integer
  the value is the ceiling of a quotient of two double-precision logarithms; what it is
  depends on how the library's logarithm and the division round, which is not a matter of
  integers. That value is the parameter \<open>ceil_log\<close> of the embedding: the functions
  that derive a field order take it as their first argument, and the properties proved
  of them hold for every such function.
\<close>

type_synonym ceil_log = "int \<Rightarrow> nat"

definition double_limit :: int where
  "double_limit = 2 ^ 1024 - 2 ^ 970"

definition LFSR_field_order :: "ceil_log \<Rightarrow> int \<Rightarrow> error + nat" where
  "LFSR_field_order lg p =
     (if double_limit \<le> \<bar>p\<bar> then Inl OverflowError
      else if p = 0 then Inl OverflowError
      else if \<bar>p\<bar> = 1 then Inr 0
      else Inr (lg p))"

text \<open>The exact \<open>\<lceil>log 2 \<bar>p\<bar>\<rceil>\<close>, the value of the parameter in exact arithmetic. The
  source agrees with it on the polynomials of the examples below.\<close>

definition exact_ceil_log :: ceil_log where
  "exact_ceil_log p = ceillog2 (nat \<bar>p\<bar>)"

text \<open>At the polynomial \<open>2 ^ 51 - 1\<close> the quotient of the source is
  \<open>51.00000000000001\<close> and \<^verbatim>\<open>ceil\<close> gives 52, one more than the exact value. The
  function below has that value there and the exact one everywhere else; the source agrees
  with it on the polynomials of the examples where it is used.\<close>

definition ceil_log_51 :: ceil_log where
  "ceil_log_51 p = (if p = 2 ^ 51 - 1 then 52 else exact_ceil_log p)"

definition LFSR_init :: "ceil_log \<Rightarrow> int \<Rightarrow> int \<Rightarrow> error + register" where
  "LFSR_init lg p s =
     (case LFSR_field_order lg p of
        Inl e \<Rightarrow> Inl e
      | Inr fo \<Rightarrow> Inr \<lparr>poly = p, state = s, state_init = s, field_order = fo\<rparr>)"

text \<open>
  \<^verbatim>\<open>fround\<close> of \<^verbatim>\<open>LFSR.build_poly\<close>. The state is rendered with width \<open>fo\<close>, so
  \<open>elab\<close> has at least \<open>fo\<close> elements and the slice assignment
  \<^verbatim>\<open>elab[0:fo-1] = elab[1:fo]\<close> replaces \<open>fo - 1\<close> elements by as many. The loop reads
  \<^verbatim>\<open>poly_str[x]\<close> for every \<open>x < fo\<close>: IndexError when the string is shorter. The
  empty feedback list (which is the case when \<open>fo = 0\<close>) makes \<^verbatim>\<open>reduce\<close> raise.
\<close>

definition LFSR_fround :: "nat \<Rightarrow> string \<Rightarrow> int \<Rightarrow> error + int" where
  "LFSR_fround fo poly_str st =
     (case state_elab_of (format_0b fo st) of
        Inl e \<Rightarrow> Inl e
      | Inr elab \<Rightarrow>
          if length poly_str < fo then Inl IndexError
          else
            (case reduce_xor (map (\<lambda>x. elab ! x) (filter (\<lambda>x. poly_str ! x = CHR ''1'') [0..<fo])) of
               Inl e \<Rightarrow> Inl e
             | Inr fb \<Rightarrow>
                 int_of_elab ((take (fo - 1) (drop 1 elab) @ drop (fo - 1) elab)[fo - 1 := fb])))"

definition LFSR_round :: "register \<Rightarrow> error + register" where
  "LFSR_round r =
     (case LFSR_fround (field_order r) (format_0b (field_order r) (poly r)) (state r) of
        Inl e \<Rightarrow> Inl e
      | Inr s \<Rightarrow> Inr (r\<lparr>state := s\<rparr>))"

definition LFSR_next :: "register \<Rightarrow> error + (register \<times> int)" where
  "LFSR_next r = (case LFSR_round r of Inl e \<Rightarrow> Inl e | Inr r' \<Rightarrow> Inr (r', state r'))"

text \<open>\<^verbatim>\<open>range(0, rounds)\<close> is empty for a negative \<open>rounds\<close>.\<close>

definition LFSR_cycle :: "register \<Rightarrow> int \<Rightarrow> error + (register \<times> int)" where
  "LFSR_cycle r rounds =
     (case rounds_loop LFSR_round (nat rounds) r of
        Inl e \<Rightarrow> Inl e
      | Inr r' \<Rightarrow> Inr (r', state r'))"

definition LFSR_full_cycle :: "register \<Rightarrow> error + (register \<times> int)" where
  "LFSR_full_cycle r =
     (case rounds_loop LFSR_round (2 ^ field_order r) r of
        Inl e \<Rightarrow> Inl e
      | Inr r' \<Rightarrow> Inr (r', state r'))"

definition LFSR_reset :: "ceil_log \<Rightarrow> register \<Rightarrow> error + register" where
  "LFSR_reset lg r = LFSR_init lg (poly r) (state_init r)"

definition LFSR_load :: "ceil_log \<Rightarrow> register \<Rightarrow> int \<Rightarrow> error + register" where
  "LFSR_load lg r s = LFSR_init lg (poly r) s"

definition LFSR_state_table :: "ceil_log \<Rightarrow> register \<Rightarrow> error + (register \<times> state_table)" where
  "LFSR_state_table lg r =
     (case table_loop LFSR_round [0..<2 ^ field_order r] r
             \<lparr>Cycle = [], State = [], Register_State = []\<rparr> of
        Inl e \<Rightarrow> Inl e
      | Inr (r', t) \<Rightarrow> (case LFSR_reset lg r' of Inl e \<Rightarrow> Inl e | Inr r'' \<Rightarrow> Inr (r'', t)))"

text \<open>\<^verbatim>\<open>from_lfsrs\<close> has the same text in both classes: every argument is reset (a
  side effect on the argument, returned here), its polynomial and state are rendered
  with its own width and appended, and the class is constructed from the two parsed
  strings. The parameter is the \<^verbatim>\<open>reset\<close> of the arguments' class.\<close>

fun elong_loop ::
  "(register \<Rightarrow> error + register) \<Rightarrow> register list \<Rightarrow> string \<Rightarrow> string
     \<Rightarrow> error + (register list \<times> string \<times> string)" where
  "elong_loop rst [] elong_poly elong_state = Inr ([], elong_poly, elong_state)"
| "elong_loop rst (x # xs) elong_poly elong_state =
     (case rst x of
        Inl e \<Rightarrow> Inl e
      | Inr x' \<Rightarrow>
          (case elong_loop rst xs
                  (elong_poly @ format_0b (field_order x') (poly x'))
                  (elong_state @ format_0b (field_order x') (state x')) of
             Inl e \<Rightarrow> Inl e
           | Inr (xs', ep, es) \<Rightarrow> Inr (x' # xs', ep, es)))"

definition LFSR_from_lfsrs :: "ceil_log \<Rightarrow> register list \<Rightarrow> error + (register list \<times> register)" where
  "LFSR_from_lfsrs lg args =
     (case elong_loop (LFSR_reset lg) args [] [] of
        Inl e \<Rightarrow> Inl e
      | Inr (args', ep, es) \<Rightarrow>
          (case int_base2 ep of
             Inl e \<Rightarrow> Inl e
           | Inr p \<Rightarrow>
               (case int_base2 es of
                  Inl e \<Rightarrow> Inl e
                | Inr s \<Rightarrow>
                    (case LFSR_init lg p s of Inl e \<Rightarrow> Inl e | Inr r \<Rightarrow> Inr (args', r)))))"

subsection \<open>class Galois\_LFSR\<close>

text \<open>\<^verbatim>\<open>poly_str = f'{self.poly:0b}'\<close> and \<^verbatim>\<open>field_order = len(poly_str)\<close>: nothing
  here can raise, so construction is total.\<close>

definition Galois_init :: "int \<Rightarrow> int \<Rightarrow> register" where
  "Galois_init p s =
     \<lparr>poly = p, state = s, state_init = s, field_order = length (format_0b 0 p)\<rparr>"

text \<open>
  \<^verbatim>\<open>fround\<close> of \<^verbatim>\<open>Galois_LFSR.build_poly\<close>. The loop reads \<^verbatim>\<open>poly_str[x]\<close> for
  \<open>1 \<le> x < fo\<close> (IndexError when the string is shorter), and
  \<^verbatim>\<open>feedback[fo-1] = elab[0]\<close> raises IndexError on the empty list \<^verbatim>\<open>[0] * 0\<close>.
\<close>

definition Galois_fround :: "nat \<Rightarrow> string \<Rightarrow> int \<Rightarrow> error + int" where
  "Galois_fround fo poly_str st =
     (case state_elab_of (format_0b fo st) of
        Inl e \<Rightarrow> Inl e
      | Inr elab \<Rightarrow>
          if fo = 0 \<or> (2 \<le> fo \<and> length poly_str < fo) then Inl IndexError
          else
            int_of_elab
              ((foldl
                  (\<lambda>feedback x.
                     feedback[x - 1 :=
                       (if poly_str ! x = CHR ''1'' then (elab ! 0) XOR (elab ! x) else elab ! x)])
                  (replicate fo 0) [1..<fo])
               [fo - 1 := elab ! 0]))"

definition Galois_round :: "register \<Rightarrow> error + register" where
  "Galois_round r =
     (case Galois_fround (field_order r) (format_0b 0 (poly r)) (state r) of
        Inl e \<Rightarrow> Inl e
      | Inr s \<Rightarrow> Inr (r\<lparr>state := s\<rparr>))"

definition Galois_next :: "register \<Rightarrow> error + (register \<times> int)" where
  "Galois_next r = (case Galois_round r of Inl e \<Rightarrow> Inl e | Inr r' \<Rightarrow> Inr (r', state r'))"

definition Galois_cycle :: "register \<Rightarrow> int \<Rightarrow> error + (register \<times> int)" where
  "Galois_cycle r rounds =
     (case rounds_loop Galois_round (nat rounds) r of
        Inl e \<Rightarrow> Inl e
      | Inr r' \<Rightarrow> Inr (r', state r'))"

definition Galois_full_cycle :: "register \<Rightarrow> error + (register \<times> int)" where
  "Galois_full_cycle r =
     (case rounds_loop Galois_round (2 ^ field_order r) r of
        Inl e \<Rightarrow> Inl e
      | Inr r' \<Rightarrow> Inr (r', state r'))"

definition Galois_reset :: "register \<Rightarrow> register" where
  "Galois_reset r = Galois_init (poly r) (state_init r)"

definition Galois_load :: "register \<Rightarrow> int \<Rightarrow> register" where
  "Galois_load r s = Galois_init (poly r) s"

definition Galois_state_table :: "register \<Rightarrow> error + (register \<times> state_table)" where
  "Galois_state_table r =
     (case table_loop Galois_round [0..<2 ^ field_order r] r
             \<lparr>Cycle = [], State = [], Register_State = []\<rparr> of
        Inl e \<Rightarrow> Inl e
      | Inr (r', t) \<Rightarrow> Inr (Galois_reset r', t))"

definition Galois_from_lfsrs :: "register list \<Rightarrow> error + (register list \<times> register)" where
  "Galois_from_lfsrs args =
     (case elong_loop (\<lambda>x. Inr (Galois_reset x)) args [] [] of
        Inl e \<Rightarrow> Inl e
      | Inr (args', ep, es) \<Rightarrow>
          (case int_base2 ep of
             Inl e \<Rightarrow> Inl e
           | Inr p \<Rightarrow>
               (case int_base2 es of
                  Inl e \<Rightarrow> Inl e
                | Inr s \<Rightarrow> Inr (args', Galois_init p s))))"

text \<open>\<^verbatim>\<open>' + '.join(xs)\<close>.\<close>

fun str_join :: "string \<Rightarrow> string list \<Rightarrow> string" where
  "str_join sep [] = []"
| "str_join sep [x] = x"
| "str_join sep (x # y # ys) = x @ sep @ str_join sep (y # ys)"

text \<open>
  The property \<^verbatim>\<open>algebraic\<close> of \<^verbatim>\<open>Galois_LFSR\<close>. \<^verbatim>\<open>poly_str[fo-1]\<close> is the last
  character when \<open>fo = 0\<close> (Python's index \<open>-1\<close>); the string is never empty.
\<close>

definition Galois_algebraic :: "register \<Rightarrow> string" where
  "Galois_algebraic r =
     (let fo = field_order r;
          poly_str = format_0b fo (poly r);
          poly_math =
            map (\<lambda>x. ''x ^ '' @ str_int (int fo - int x))
              (filter (\<lambda>x. poly_str ! x = CHR ''1'') [0..<fo - 1]);
          poly_math' =
            (if (if fo = 0 then last poly_str else poly_str ! (fo - 1)) = CHR ''1''
             then poly_math @ [''x''] else poly_math)
      in str_join '' + '' (poly_math' @ [''1'']))"

section \<open>The one-step rules as the specification words them\<close>

text \<open>
  The specification speaks of bit vectors indexed from the most significant bit. The
  register contents are the sequence \<open>s[0..field_order)\<close> of the state read as
  \<open>field_order\<close> bits; the tap vector has length \<open>field_order\<close>, and \<open>tap[i]\<close> holds
  iff bit \<open>i\<close> of the minimal binary representation of the polynomial, counted from its
  most significant bit, is set.
\<close>

definition stage_bits :: "nat \<Rightarrow> int \<Rightarrow> bool list" where
  "stage_bits w s = map (\<lambda>i. bit s (w - 1 - i)) [0..<w]"

definition int_of_stages :: "bool list \<Rightarrow> int" where
  "int_of_stages bs = foldl (\<lambda>a b. 2 * a + of_bool b) 0 bs"

definition spec_tap :: "nat \<Rightarrow> int \<Rightarrow> bool list" where
  "spec_tap fo p =
     map (\<lambda>i. i < floorlog 2 (nat p) \<and> bit p (floorlog 2 (nat p) - 1 - i)) [0..<fo]"

text \<open>The tap vector read from the polynomial in binary with zeros in front up to
  \<open>fo\<close> digits, the way \<^verbatim>\<open>f'{poly:0{fo}b}'\<close> renders it: the representation has
  \<open>fo\<close> digits, or the bit length of the polynomial when that is more.\<close>

definition padded_tap :: "nat \<Rightarrow> int \<Rightarrow> bool list" where
  "padded_tap fo p = map (\<lambda>i. bit p (max fo (floorlog 2 (nat p)) - 1 - i)) [0..<fo]"


text \<open>Section 4.3: with \<open>msb = s[0]\<close>, stage \<open>i - 1\<close> takes \<open>s[i]\<close>, combined with \<open>msb\<close>
  when \<open>tap[i]\<close> holds, for \<open>1 \<le> i < field_order\<close>; the last stage takes \<open>msb\<close>.\<close>

definition spec_galois_step :: "bool list \<Rightarrow> int \<Rightarrow> int" where
  "spec_galois_step tap st =
     (let fo = length tap;
          s = stage_bits fo st;
          msb = s ! 0
      in int_of_stages
           (map (\<lambda>j. if j < fo - 1
                      then (if tap ! (j + 1) then s ! (j + 1) \<noteq> msb else s ! (j + 1))
                      else msb) [0..<fo]))"

definition bchar :: "bool \<Rightarrow> char" where
  "bchar b = (if b then CHR ''1'' else CHR ''0'')"

section \<open>Notions used to state the properties\<close>

text \<open>A register whose \<^verbatim>\<open>field_order\<close> is the one \<^verbatim>\<open>build_poly\<close> derives from its
  \<^verbatim>\<open>poly\<close>: every register that \<^verbatim>\<open>__init__\<close> returns is so, and no method changes
  that.\<close>

definition LFSR_wf :: "ceil_log \<Rightarrow> register \<Rightarrow> bool" where
  "LFSR_wf lg r \<longleftrightarrow> LFSR_field_order lg (poly r) = Inr (field_order r)"

definition Galois_wf :: "register \<Rightarrow> bool" where
  "Galois_wf r \<longleftrightarrow> field_order r = length (format_0b 0 (poly r))"

definition in_range :: "register \<Rightarrow> bool" where
  "in_range r \<longleftrightarrow> 0 \<le> state r \<and> state r < 2 ^ field_order r"

text \<open>\<open>n\<close> calls of \<^verbatim>\<open>next()\<close> one after the other; the value is what the last call
  returns (the current state when there is no call).\<close>

fun next_calls ::
  "(register \<Rightarrow> error + (register \<times> int)) \<Rightarrow> nat \<Rightarrow> register \<Rightarrow> error + (register \<times> int)" where
  "next_calls nxt 0 r = Inr (r, state r)"
| "next_calls nxt (Suc n) r =
     (case next_calls nxt n r of Inl e \<Rightarrow> Inl e | Inr (r', v) \<Rightarrow> nxt r')"

text \<open>A sequence of calls of the three advancing methods, for the lifecycle property.\<close>

datatype call = Call_next | Call_cycle int | Call_full_cycle

fun LFSR_call :: "call \<Rightarrow> register \<Rightarrow> error + register" where
  "LFSR_call Call_next r = (case LFSR_next r of Inl e \<Rightarrow> Inl e | Inr (r', v) \<Rightarrow> Inr r')"
| "LFSR_call (Call_cycle n) r = (case LFSR_cycle r n of Inl e \<Rightarrow> Inl e | Inr (r', v) \<Rightarrow> Inr r')"
| "LFSR_call Call_full_cycle r = (case LFSR_full_cycle r of Inl e \<Rightarrow> Inl e | Inr (r', v) \<Rightarrow> Inr r')"

fun Galois_call :: "call \<Rightarrow> register \<Rightarrow> error + register" where
  "Galois_call Call_next r = (case Galois_next r of Inl e \<Rightarrow> Inl e | Inr (r', v) \<Rightarrow> Inr r')"
| "Galois_call (Call_cycle n) r = (case Galois_cycle r n of Inl e \<Rightarrow> Inl e | Inr (r', v) \<Rightarrow> Inr r')"
| "Galois_call Call_full_cycle r = (case Galois_full_cycle r of Inl e \<Rightarrow> Inl e | Inr (r', v) \<Rightarrow> Inr r')"

fun run_calls :: "(call \<Rightarrow> register \<Rightarrow> error + register) \<Rightarrow> call list \<Rightarrow> register \<Rightarrow> error + register" where
  "run_calls do_call [] r = Inr r"
| "run_calls do_call (c # cs) r =
     (case do_call c r of Inl e \<Rightarrow> Inl e | Inr r' \<Rightarrow> run_calls do_call cs r')"

text \<open>The concatenation of bit fields, the first field most significant: each pair is
  a width and the value held in that many bits.\<close>

definition bit_concat :: "(nat \<times> int) list \<Rightarrow> int" where
  "bit_concat fs = foldl (\<lambda>acc (w, v). acc * 2 ^ w + v) 0 fs"

section \<open>Binary strings and bit vectors\<close>

lemma digit_char_simps: "digit_char 0 = CHR ''0''" "digit_char (Suc 0) = CHR ''1''"
  by (simp_all add: digit_char_def)

lemma digit_char_mod2: "digit_char (n mod 2) = bchar (odd n)"
  by (cases "even n") (auto simp: digit_char_def bchar_def odd_iff_mod_2_eq_one)

lemma digit_char_lt2: "n < 2 \<Longrightarrow> digit_char n = bchar (odd n)"
  using digit_char_mod2 [of n] by simp

lemma stage_bits_length [simp]: "length (stage_bits w s) = w"
  by (simp add: stage_bits_def)

lemma stage_bits_nth: "i < w \<Longrightarrow> stage_bits w s ! i = bit s (w - 1 - i)"
  by (simp add: stage_bits_def)

lemma stage_bits_Suc: "stage_bits (Suc w) s = stage_bits w (s div 2) @ [odd s]"
proof (rule nth_equalityI)
  show "length (stage_bits (Suc w) s) = length (stage_bits w (s div 2) @ [odd s])" by simp
next
  fix i assume "i < length (stage_bits (Suc w) s)"
  then have i: "i < Suc w" by simp
  show "stage_bits (Suc w) s ! i = (stage_bits w (s div 2) @ [odd s]) ! i"
  proof (cases "i < w")
    case True
    then have "Suc w - 1 - i = Suc (w - 1 - i)" by simp
    with True show ?thesis
      by (simp add: stage_bits_nth nth_append bit_Suc)
  next
    case False
    with i have "i = w" by simp
    then show ?thesis by (simp add: stage_bits_nth nth_append bit_0)
  qed
qed

lemma bin_digits_length_pos: "0 < length (bin_digits n)"
  by (induction n rule: bin_digits.induct) (subst bin_digits.simps, simp)

lemma bin_digits_bound: "n < 2 ^ length (bin_digits n)"
proof (induction n rule: bin_digits.induct)
  case (1 n)
  show ?case
  proof (cases "n < 2")
    case True
    then show ?thesis by (subst bin_digits.simps) simp
  next
    case False
    with 1 have "n div 2 < 2 ^ length (bin_digits (n div 2))" by simp
    then have "n < 2 * 2 ^ length (bin_digits (n div 2))" by linarith
    with False show ?thesis by (subst bin_digits.simps) simp
  qed
qed

lemma bin_digits_bits: "bin_digits n = map bchar (stage_bits (length (bin_digits n)) (int n))"
proof (induction n rule: bin_digits.induct)
  case (1 n)
  show ?case
  proof (cases "n < 2")
    case True
    then have "bin_digits n = [bchar (odd n)]"
      by (subst bin_digits.simps) (simp add: digit_char_lt2)
    then show ?thesis by (simp add: stage_bits_def bit_0)
  next
    case False
    then have eq: "bin_digits n = bin_digits (n div 2) @ [bchar (odd n)]"
      by (subst bin_digits.simps) (simp add: digit_char_mod2)
    have "int n div 2 = int (n div 2)" by simp
    with 1 False show ?thesis
      by (simp add: eq stage_bits_Suc)
  qed
qed

lemma bin_digits_floorlog: "0 < n \<Longrightarrow> length (bin_digits n) = floorlog 2 n"
proof (induction n rule: bin_digits.induct)
  case (1 n)
  show ?case
  proof (cases "n < 2")
    case True
    with 1 have "n = 1" by simp
    then show ?thesis by (subst bin_digits.simps) (simp add: compute_floorlog)
  next
    case False
    then have "0 < n div 2" by simp
    with 1 False have "length (bin_digits (n div 2)) = floorlog 2 (n div 2)" by simp
    with False show ?thesis
      by (subst bin_digits.simps, subst compute_floorlog) simp
  qed
qed

lemma bin_digits_fits: "0 < w \<Longrightarrow> n < 2 ^ w \<Longrightarrow> length (bin_digits n) \<le> w"
proof (induction n arbitrary: w rule: bin_digits.induct)
  case (1 n)
  show ?case
  proof (cases "n < 2")
    case True
    with 1 show ?thesis by (subst bin_digits.simps) simp
  next
    case False
    from 1(2) obtain w' where w1: "w = Suc w'" by (cases w) auto
    have "0 < w'"
    proof (rule ccontr)
      assume "\<not> 0 < w'"
      with w1 1(3) have "n < 2" by simp
      with False show False by simp
    qed
    with w1 have w: "w = Suc w'" "0 < w'" by simp_all
    with 1(3) have "n div 2 < 2 ^ w'" by auto
    with 1(1) False w have "length (bin_digits (n div 2)) \<le> w'" by simp
    with False w show ?thesis by (subst bin_digits.simps) simp
  qed
qed

lemma no_high_bits: "0 \<le> s \<Longrightarrow> s < 2 ^ L \<Longrightarrow> L \<le> k \<Longrightarrow> \<not> bit (s::int) k"
proof -
  assume a: "0 \<le> s" "s < 2 ^ L" "L \<le> k"
  then have "take_bit L s = s" by (simp add: take_bit_int_eq_self)
  then have "bit s k = bit (take_bit L s) k" by simp
  with a(3) show ?thesis by (simp add: bit_take_bit_iff)
qed

lemma stage_bits_pad:
  assumes "0 \<le> s" "s < 2 ^ L" "L \<le> w"
  shows "stage_bits w s = replicate (w - L) False @ stage_bits L s"
proof (rule nth_equalityI)
  show "length (stage_bits w s) = length (replicate (w - L) False @ stage_bits L s)"
    using assms by simp
next
  fix i assume "i < length (stage_bits w s)"
  then have i: "i < w" by simp
  show "stage_bits w s ! i = (replicate (w - L) False @ stage_bits L s) ! i"
  proof (cases "i < w - L")
    case True
    then have "L \<le> w - 1 - i" by simp
    with assms(1,2) have "\<not> bit s (w - 1 - i)" by (rule no_high_bits)
    with True i show ?thesis by (simp add: stage_bits_nth nth_append)
  next
    case False
    with i assms have "i - (w - L) < L" "L - 1 - (i - (w - L)) = w - 1 - i" by simp_all
    with False i show ?thesis by (simp add: stage_bits_nth nth_append)
  qed
qed

lemma format_0b_length:
  "0 \<le> s \<Longrightarrow> length (format_0b w s) = max w (length (bin_digits (nat s)))"
  by (simp add: format_0b_def zero_pad_def)

lemma format_0b_length_ge: "w \<le> length (format_0b w s)"
proof (cases "s < 0")
  case True
  then have "length (format_0b w s) =
      Suc (w - 1 - length (bin_digits (nat (- s))) + length (bin_digits (nat (- s))))"
    by (simp add: format_0b_def zero_pad_def)
  then show ?thesis by arith
next
  case False
  then have "length (format_0b w s) =
      w - length (bin_digits (nat s)) + length (bin_digits (nat s))"
    by (simp add: format_0b_def zero_pad_def)
  then show ?thesis by arith
qed

lemma format_0b_bits:
  assumes "0 \<le> s"
  shows "format_0b w s = map bchar (stage_bits (length (format_0b w s)) s)"
proof -
  let ?L = "length (bin_digits (nat s))"
  have b: "s < 2 ^ ?L" using bin_digits_bound [of "nat s"] assms
    by (metis nat_less_iff of_nat_numeral of_nat_power)
  have "stage_bits (max w ?L) s = replicate (max w ?L - ?L) False @ stage_bits ?L s"
    using assms b by (rule stage_bits_pad) simp
  moreover have "bin_digits (nat s) = map bchar (stage_bits ?L s)"
    using bin_digits_bits [of "nat s"] assms by simp
  moreover have "max w ?L - ?L = w - ?L" by simp
  ultimately show ?thesis using assms
    by (simp add: format_0b_length) (simp add: format_0b_def zero_pad_def bchar_def)
qed

lemma format_0b_in_range:
  assumes "0 \<le> s" "s < 2 ^ w" "0 < w"
  shows "format_0b w s = map bchar (stage_bits w s)"
proof -
  have "nat s < 2 ^ w" using assms by (simp add: nat_less_iff)
  with assms(3) have "length (bin_digits (nat s)) \<le> w" by (rule bin_digits_fits)
  with assms(1) have "length (format_0b w s) = w" by (simp add: format_0b_length)
  with format_0b_bits [OF assms(1), of w] show ?thesis by simp
qed

lemma int_base2_bchar: "int_base2 [bchar b] = Inr (of_bool b)"
  by (simp add: int_base2_def bchar_def)

lemma state_elab_of_bits: "state_elab_of (map bchar bs) = Inr (map of_bool bs)"
  by (induction bs) (simp_all add: int_base2_bchar)

lemma bin_value_bits:
  "bin_value acc (map bchar bs) = Inr (foldl (\<lambda>a b. 2 * a + of_bool b) acc bs)"
  by (induction bs arbitrary: acc) (simp_all add: bchar_def)

lemma foldl_bits_int:
  "int (foldl (\<lambda>a b. 2 * a + of_bool b) acc bs) = foldl (\<lambda>a b. 2 * a + of_bool b) (int acc) bs"
  by (induction bs arbitrary: acc) simp_all

lemma int_base2_bits: "bs \<noteq> [] \<Longrightarrow> int_base2 (map bchar bs) = Inr (int_of_stages bs)"
proof (cases bs)
  case Nil
  assume "bs \<noteq> []" with Nil show ?thesis by simp
next
  case (Cons b bs')
  have "bchar b \<noteq> CHR ''-''" by (simp add: bchar_def)
  moreover have "bin_value 0 (map bchar (b # bs')) = Inr (foldl (\<lambda>a b. 2 * a + of_bool b) 0 (b # bs'))"
    by (rule bin_value_bits)
  ultimately show ?thesis using Cons foldl_bits_int [of 0 "b # bs'"]
    by (simp add: int_base2_def int_of_stages_def del: foldl_Cons bin_value.simps)
qed

lemma str_int_of_bool: "str_int (of_bool b) = [bchar b]"
  by (cases b) (simp_all add: str_int_def bchar_def dec_digits.simps digit_char_def)

lemma int_of_elab_bits: "bs \<noteq> [] \<Longrightarrow> int_of_elab (map of_bool bs) = Inr (int_of_stages bs)"
proof -
  assume ne: "bs \<noteq> []"
  have "concat (map str_int (map of_bool bs)) = map bchar bs"
    by (induction bs) (simp_all add: str_int_of_bool)
  with ne show ?thesis by (simp add: int_of_elab_def int_base2_bits)
qed

lemma foldl_bits_bounds:
  "0 \<le> a \<Longrightarrow> 0 \<le> foldl (\<lambda>a b. 2 * a + of_bool b) (a::int) bs"
  by (induction bs arbitrary: a) simp_all

lemma foldl_bits_append_value:
  "foldl (\<lambda>a b. 2 * a + of_bool b) (a::int) bs = a * 2 ^ length bs + foldl (\<lambda>a b. 2 * a + of_bool b) 0 bs"
proof (induction bs arbitrary: a)
  case Nil
  show ?case by simp
next
  case (Cons b bs)
  let ?f = "\<lambda>(a::int) b. 2 * a + of_bool b"
  have "foldl ?f a (b # bs) = foldl ?f (2 * a + of_bool b) bs" by simp
  also have "\<dots> = (2 * a + of_bool b) * 2 ^ length bs + foldl ?f 0 bs" by (rule Cons)
  finally have l: "foldl ?f a (b # bs) = (2 * a + of_bool b) * 2 ^ length bs + foldl ?f 0 bs" .
  have "foldl ?f 0 (b # bs) = foldl ?f (of_bool b) bs" by simp
  also have "\<dots> = of_bool b * 2 ^ length bs + foldl ?f 0 bs" by (rule Cons)
  finally have r: "foldl ?f 0 (b # bs) = of_bool b * 2 ^ length bs + foldl ?f 0 bs" .
  show ?case unfolding l r by (simp add: algebra_simps)
qed

lemma int_of_stages_nonneg: "0 \<le> int_of_stages bs"
  by (simp add: int_of_stages_def foldl_bits_bounds)

lemma int_of_stages_append:
  "int_of_stages (as @ bs) = int_of_stages as * 2 ^ length bs + int_of_stages bs"
  by (simp add: int_of_stages_def foldl_bits_append_value [of "foldl _ _ as"])

lemma int_of_stages_less: "int_of_stages bs < 2 ^ length bs"
proof (induction bs rule: rev_induct)
  case Nil
  show ?case by (simp add: int_of_stages_def)
next
  case (snoc b bs)
  have "int_of_stages [b] \<le> 1" by (simp add: int_of_stages_def)
  with snoc show ?case by (simp add: int_of_stages_append)
qed

lemma int_of_stages_stage_bits:
  "0 \<le> s \<Longrightarrow> s < 2 ^ w \<Longrightarrow> int_of_stages (stage_bits w s) = s"
proof (induction w arbitrary: s)
  case 0
  then show ?case by (simp add: int_of_stages_def stage_bits_def)
next
  case (Suc w)
  then have "0 \<le> s div 2" "s div 2 < 2 ^ w" by auto
  then have "int_of_stages (stage_bits w (s div 2)) = s div 2" by (rule Suc.IH)
  moreover have "int_of_stages [odd s] = s mod 2"
    by (simp add: int_of_stages_def odd_iff_mod_2_eq_one)
  ultimately show ?case by (simp add: stage_bits_Suc int_of_stages_append)
qed

lemma xor_of_bool: "(of_bool a :: int) XOR of_bool b = of_bool (a \<noteq> b)"
  by (cases a; cases b) simp_all

lemma foldl_xor_bits:
  "foldl (XOR) (of_bool x :: int) (map of_bool xs) = of_bool (foldl (\<noteq>) x xs)"
  by (induction xs arbitrary: x) (simp_all add: xor_of_bool)

lemma reduce_xor_bits:
  "reduce_xor (map of_bool xs) =
     (if xs = [] then Inl TypeError else Inr (of_bool (foldl (\<noteq>) False xs)))"
  by (cases xs) (simp_all add: foldl_xor_bits)

lemma bchar_eq_1 [simp]: "bchar b = CHR ''1'' \<longleftrightarrow> b"
  by (simp add: bchar_def)

lemma map_nth_of_bool:
  "\<forall>x \<in> set xs. x < length bs \<Longrightarrow>
     map (\<lambda>x. map of_bool bs ! x) xs = map of_bool (map (\<lambda>x. bs ! x) xs)"
  by (induction xs) simp_all

lemma LFSR_fround_stages:
  assumes st: "0 \<le> st" and len: "fo \<le> length poly_str"
    and taps: "filter (\<lambda>x. poly_str ! x = CHR ''1'') [0..<fo] \<noteq> []"
  shows "LFSR_fround fo poly_str st =
     Inr (int_of_stages
       ((take (fo - 1) (drop 1 (stage_bits (length (format_0b fo st)) st))
           @ drop (fo - 1) (stage_bits (length (format_0b fo st)) st))
         [fo - 1 := foldl (\<noteq>) False
            (map (\<lambda>x. stage_bits (length (format_0b fo st)) st ! x)
               (filter (\<lambda>x. poly_str ! x = CHR ''1'') [0..<fo]))]))"
proof -
  let ?L = "length (format_0b fo st)"
  let ?bs = "stage_bits ?L st"
  let ?T = "filter (\<lambda>x. poly_str ! x = CHR ''1'') [0..<fo]"
  let ?fb = "foldl (\<noteq>) False (map (\<lambda>x. ?bs ! x) ?T)"
  have L: "fo \<le> ?L" by (rule format_0b_length_ge)
  from taps have fo: "0 < fo" by (cases fo) auto
  have elab: "state_elab_of (format_0b fo st) = Inr (map of_bool ?bs)"
    using format_0b_bits [OF st, of fo] state_elab_of_bits [of ?bs] by simp
  have "\<forall>x \<in> set ?T. x < length ?bs" using L by auto
  then have fbl: "map (\<lambda>x. map of_bool ?bs ! x) ?T = map of_bool (map (\<lambda>x. ?bs ! x) ?T)"
    by (rule map_nth_of_bool)
  have red: "reduce_xor (map (\<lambda>x. (map of_bool ?bs :: int list) ! x) ?T) = Inr (of_bool ?fb)"
    using taps by (simp only: fbl reduce_xor_bits map_is_Nil_conv if_False)
  have shift: "(take (fo - 1) (drop 1 (map of_bool ?bs)) @ drop (fo - 1) (map of_bool ?bs))
                 [fo - 1 := of_bool ?fb]
               = (map of_bool ((take (fo - 1) (drop 1 ?bs) @ drop (fo - 1) ?bs)[fo - 1 := ?fb]) :: int list)"
    by (simp only: take_map drop_map map_append [symmetric] map_update)
  have ne: "(take (fo - 1) (drop 1 ?bs) @ drop (fo - 1) ?bs)[fo - 1 := ?fb] \<noteq> []"
  proof -
    have "length (drop (fo - 1) ?bs) = ?L - (fo - 1)" by simp
    with L fo have "0 < length (drop (fo - 1) ?bs)" by arith
    then show ?thesis by (simp del: length_drop)
  qed
  show ?thesis
    unfolding LFSR_fround_def elab using len
    by (simp only: sum.case red shift int_of_elab_bits [OF ne] not_less [symmetric] if_False)
qed

lemma shifted_stages:
  assumes "length bs = fo" "0 < fo"
  shows "(take (fo - 1) (drop 1 bs) @ drop (fo - 1) bs)[fo - 1 := fb]
           = map (\<lambda>i. if i < fo - 1 then bs ! (i + 1) else fb) [0..<fo]"
proof (rule nth_equalityI)
  show "length ((take (fo - 1) (drop 1 bs) @ drop (fo - 1) bs)[fo - 1 := fb])
          = length (map (\<lambda>i. if i < fo - 1 then bs ! (i + 1) else fb) [0..<fo])"
    using assms by simp
next
  fix i assume "i < length ((take (fo - 1) (drop 1 bs) @ drop (fo - 1) bs)[fo - 1 := fb])"
  with assms have i: "i < fo" by simp
  show "(take (fo - 1) (drop 1 bs) @ drop (fo - 1) bs)[fo - 1 := fb] ! i
          = map (\<lambda>i. if i < fo - 1 then bs ! (i + 1) else fb) [0..<fo] ! i"
  proof (cases "i < fo - 1")
    case True
    with assms i show ?thesis by (simp add: nth_append)
  next
    case False
    with i have "i = fo - 1" by simp
    with assms i show ?thesis by simp
  qed
qed

lemma LFSR_fround_in_range:
  assumes st: "0 \<le> st" "st < 2 ^ fo" and len: "fo \<le> length poly_str"
    and taps: "filter (\<lambda>x. poly_str ! x = CHR ''1'') [0..<fo] \<noteq> []"
  shows "LFSR_fround fo poly_str st =
     Inr (int_of_stages
       (map (\<lambda>i. if i < fo - 1 then stage_bits fo st ! (i + 1)
                   else foldl (\<noteq>) False
                          (map (\<lambda>x. stage_bits fo st ! x)
                             (filter (\<lambda>x. poly_str ! x = CHR ''1'') [0..<fo])))
          [0..<fo]))"
proof -
  from taps have fo: "0 < fo" by (cases fo) auto
  have "format_0b fo st = map bchar (stage_bits fo st)"
    using st fo by (rule format_0b_in_range)
  then have L: "length (format_0b fo st) = fo" by simp
  show ?thesis
    using LFSR_fround_stages [OF st(1) len taps] fo
    by (simp only: L shifted_stages [OF stage_bits_length])
qed

lemma bin_digits_hd: "0 < n \<Longrightarrow> bin_digits n ! 0 = CHR ''1''"
proof (induction n rule: bin_digits.induct)
  case (1 n)
  show ?case
  proof (cases "n < 2")
    case True
    with 1(2) have "n = 1" by simp
    then show ?thesis by (subst bin_digits.simps) (simp add: digit_char_def)
  next
    case False
    then have "0 < n div 2" by simp
    with 1 False have "bin_digits (n div 2) ! 0 = CHR ''1''" by simp
    with False bin_digits_length_pos [of "n div 2"] show ?thesis
      by (subst bin_digits.simps) (simp add: nth_append)
  qed
qed

lemma bin_digits_nth:
  assumes "0 < n" "i < floorlog 2 n"
  shows "bin_digits n ! i = bchar (bit (int n) (floorlog 2 n - 1 - i))"
proof -
  have "bin_digits n ! i = map bchar (stage_bits (floorlog 2 n) (int n)) ! i"
    using bin_digits_bits [of n] bin_digits_floorlog [OF assms(1)] by simp
  with assms(2) show ?thesis by (simp add: stage_bits_nth)
qed

lemma format_0b_minimal:
  assumes "0 < p" "w \<le> floorlog 2 (nat p)"
  shows "format_0b w p = bin_digits (nat p)"
  using assms bin_digits_floorlog [of "nat p"] by (simp add: format_0b_def zero_pad_def)

lemma poly_str_tap:
  assumes "0 < p" "w \<le> floorlog 2 (nat p)" "i < fo" "fo \<le> floorlog 2 (nat p)"
  shows "(format_0b w p ! i = CHR ''1'') = spec_tap fo p ! i"
proof -
  from assms have i: "i < floorlog 2 (nat p)" by simp
  have "format_0b w p ! i = bchar (bit (int (nat p)) (floorlog 2 (nat p) - 1 - i))"
    using assms(1) i by (simp only: format_0b_minimal [OF assms(1,2)]) (rule bin_digits_nth, simp_all)
  with assms i show ?thesis by (simp add: spec_tap_def)
qed

lemma spec_tap_length [simp]: "length (spec_tap fo p) = fo"
  by (simp add: spec_tap_def)

lemma LFSR_init_fields:
  assumes "LFSR_init lg p s = Inr r"
  shows "poly r = p" "state r = s" "state_init r = s" "LFSR_field_order lg p = Inr (field_order r)"
  using assms by (auto simp: LFSR_init_def split: sum.splits)

lemma format_0b_width: "0 < p \<Longrightarrow> length (format_0b fo p) = max fo (floorlog 2 (nat p))"
  using bin_digits_floorlog [of "nat p"] by (simp add: format_0b_length)

lemma poly_str_padded_tap:
  assumes "0 < p" "i < fo"
  shows "(format_0b fo p ! i = CHR ''1'') = padded_tap fo p ! i"
proof -
  let ?L = "max fo (floorlog 2 (nat p))"
  from assms(1) have "format_0b fo p = map bchar (stage_bits ?L p)"
    using format_0b_bits [of p fo] by (simp add: format_0b_width)
  moreover from assms(2) have "i < ?L" by simp
  ultimately have "format_0b fo p ! i = bchar (bit p (?L - 1 - i))"
    by (simp add: stage_bits_nth)
  with assms(2) show ?thesis by (simp add: padded_tap_def)
qed

lemma padded_tap_length [simp]: "length (padded_tap fo p) = fo"
  by (simp add: padded_tap_def)


lemma top_bit: "0 < n \<Longrightarrow> bit (int n) (floorlog 2 n - 1)"
proof -
  assume n: "0 < n"
  then have "0 < floorlog 2 n" by (simp add: floorlog_def)
  with n have "bin_digits n ! 0 = bchar (bit (int n) (floorlog 2 n - 1 - 0))"
    by (rule bin_digits_nth)
  with bin_digits_hd [OF n] show ?thesis by simp
qed

lemma LFSR_taps_nonempty:
  assumes p: "1 \<le> p" and fo: "0 < fo"
  shows "filter (\<lambda>x. format_0b fo p ! x = CHR ''1'') [0..<fo] \<noteq> []"
proof -
  let ?fl = "floorlog 2 (nat p)"
  let ?L = "max fo ?fl"
  from p have p0: "0 < p" "0 < nat p" by simp_all
  then have fl: "0 < ?fl" by (simp add: floorlog_def)
  with fo have i: "?L - ?fl < fo" by (simp add: max_def)
  have "?L - 1 - (?L - ?fl) = ?fl - 1" using fl by (simp add: max_def)
  moreover have "bit p (?fl - 1)" using top_bit [OF p0(2)] p0(1) by simp
  ultimately have "padded_tap fo p ! (?L - ?fl)" using i by (simp add: padded_tap_def)
  then have "format_0b fo p ! (?L - ?fl) = CHR ''1''"
    using poly_str_padded_tap [OF p0(1) i] by simp
  with i have "\<exists>x \<in> set [0..<fo]. format_0b fo p ! x = CHR ''1''" by auto
  then show ?thesis by (simp only: filter_empty_conv) blast
qed


section \<open>The Fibonacci transition\<close>











section \<open>The Galois transition\<close>

lemma foldl_update_length:
  "length (foldl (\<lambda>fb x. fb[h x := g x]) xs ys) = length xs"
  by (induction ys arbitrary: xs) simp_all

lemma foldl_update_nth:
  "j < length xs \<Longrightarrow>
     foldl (\<lambda>fb x. fb[x - Suc 0 := g x]) xs [Suc 0..<n] ! j
       = (if j < n - Suc 0 then g (Suc j) else xs ! j)"
proof (induction n)
  case 0
  then show ?case by simp
next
  case (Suc n)
  show ?case
  proof (cases "n = 0")
    case True
    then show ?thesis by simp
  next
    case False
    then have "[Suc 0..<Suc n] = [Suc 0..<n] @ [n]" by simp
    then have "foldl (\<lambda>fb x. fb[x - Suc 0 := g x]) xs [Suc 0..<Suc n]
                 = (foldl (\<lambda>fb x. fb[x - Suc 0 := g x]) xs [Suc 0..<n])[n - Suc 0 := g n]"
      by simp
    with Suc False show ?thesis
      by (auto simp: nth_list_update foldl_update_length)
  qed
qed

lemma Galois_feedback_stages:
  assumes fo: "0 < fo" and L: "fo \<le> length bs"
  shows "(foldl (\<lambda>feedback x.
             feedback[x - 1 :=
               (if poly_str ! x = CHR ''1''
                then (map of_bool bs ! 0) XOR (map of_bool bs ! x) else map of_bool bs ! x)])
           (replicate fo (0::int)) [1..<fo])
         [fo - 1 := map of_bool bs ! 0]
       = map of_bool
           (map (\<lambda>j. if j < fo - 1
                      then (if poly_str ! (j + 1) = CHR ''1'' then bs ! (j + 1) \<noteq> bs ! 0
                            else bs ! (j + 1))
                      else bs ! 0) [0..<fo])"
proof (rule nth_equalityI)
  show "length ((foldl (\<lambda>feedback x.
             feedback[x - 1 :=
               (if poly_str ! x = CHR ''1''
                then (map of_bool bs ! 0) XOR (map of_bool bs ! x) else map of_bool bs ! x)])
           (replicate fo (0::int)) [1..<fo])
         [fo - 1 := map of_bool bs ! 0])
       = length (map of_bool
           (map (\<lambda>j. if j < fo - 1
                      then (if poly_str ! (j + 1) = CHR ''1'' then bs ! (j + 1) \<noteq> bs ! 0
                            else bs ! (j + 1))
                      else bs ! 0) [0..<fo]) :: int list)"
    by (simp add: foldl_update_length)
next
  fix i
  assume "i < length ((foldl (\<lambda>feedback x.
             feedback[x - 1 :=
               (if poly_str ! x = CHR ''1''
                then (map of_bool bs ! 0) XOR (map of_bool bs ! x) else map of_bool bs ! x)])
           (replicate fo (0::int)) [1..<fo])
         [fo - 1 := map of_bool bs ! 0])"
  then have i: "i < fo" by (simp add: foldl_update_length)
  show "((foldl (\<lambda>feedback x.
             feedback[x - 1 :=
               (if poly_str ! x = CHR ''1''
                then (map of_bool bs ! 0) XOR (map of_bool bs ! x) else map of_bool bs ! x)])
           (replicate fo (0::int)) [1..<fo])
         [fo - 1 := map of_bool bs ! 0]) ! i
       = (map of_bool
           (map (\<lambda>j. if j < fo - 1
                      then (if poly_str ! (j + 1) = CHR ''1'' then bs ! (j + 1) \<noteq> bs ! 0
                            else bs ! (j + 1))
                      else bs ! 0) [0..<fo]) :: int list) ! i"
  proof (cases "i < fo - 1")
    case True
    with L fo have "i + 1 < length bs" "0 < length bs" "bs \<noteq> []" by auto
    with True i show ?thesis
      by (simp add: nth_list_update foldl_update_length foldl_update_nth xor_of_bool)
  next
    case False
    with i have "i = fo - 1" by simp
    moreover from L fo have "0 < length bs" by (cases bs) auto
    ultimately show ?thesis using L fo i
      by (simp add: nth_list_update foldl_update_length)
  qed
qed

lemma Galois_fround_stages:
  assumes st: "0 \<le> st" and fo: "0 < fo" and len: "fo \<le> length poly_str"
  shows "Galois_fround fo poly_str st =
     Inr (int_of_stages
       (map (\<lambda>j. if j < fo - 1
                  then (if poly_str ! (j + 1) = CHR ''1''
                        then stage_bits (length (format_0b fo st)) st ! (j + 1)
                               \<noteq> stage_bits (length (format_0b fo st)) st ! 0
                        else stage_bits (length (format_0b fo st)) st ! (j + 1))
                  else stage_bits (length (format_0b fo st)) st ! 0) [0..<fo]))"
proof -
  let ?L = "length (format_0b fo st)"
  let ?bs = "stage_bits ?L st"
  have L: "fo \<le> length ?bs" by (simp add: format_0b_length_ge)
  have elab: "state_elab_of (format_0b fo st) = Inr (map of_bool ?bs)"
    using format_0b_bits [OF st, of fo] state_elab_of_bits [of ?bs] by simp
  have g: "\<not> (fo = 0 \<or> (2 \<le> fo \<and> length poly_str < fo))" using fo len by simp
  have ne: "map (\<lambda>j. if j < fo - 1
                  then (if poly_str ! (j + 1) = CHR ''1'' then ?bs ! (j + 1) \<noteq> ?bs ! 0
                        else ?bs ! (j + 1))
                  else ?bs ! 0) [0..<fo] \<noteq> []"
    using fo by simp
  show ?thesis
    unfolding Galois_fround_def elab
    by (simp only: sum.case g if_False Galois_feedback_stages [OF fo L] int_of_elab_bits [OF ne])
qed

lemma Galois_fround_tap0:
  "Galois_fround fo (c # cs) st = Galois_fround fo (c' # cs) st"
proof -
  have "\<And>elab :: int list. foldl (\<lambda>feedback x.
             feedback[x - 1 :=
               (if (c # cs) ! x = CHR ''1'' then (elab ! 0) XOR (elab ! x) else elab ! x)])
           (replicate fo 0) [1..<fo]
        = foldl (\<lambda>feedback x.
             feedback[x - 1 :=
               (if (c' # cs) ! x = CHR ''1'' then (elab ! 0) XOR (elab ! x) else elab ! x)])
           (replicate fo 0) [1..<fo]"
    by (rule foldl_cong) auto
  then show ?thesis unfolding Galois_fround_def by (simp only: length_Cons)
qed

lemma Galois_init_fields [simp]:
  "poly (Galois_init p s) = p" "state (Galois_init p s) = s" "state_init (Galois_init p s) = s"
  "field_order (Galois_init p s) = length (format_0b 0 p)"
  by (simp_all add: Galois_init_def)

lemma format_0b_0_length: "0 < p \<Longrightarrow> length (format_0b 0 p) = floorlog 2 (nat p)"
  using bin_digits_floorlog [of "nat p"] by (simp add: format_0b_def zero_pad_def)

lemma format_0b_0_length_pos: "0 < length (format_0b 0 p)"
  using bin_digits_length_pos by (simp add: format_0b_def zero_pad_def)

lemma Galois_fround_spec:
  assumes p: "1 \<le> p" and st: "0 \<le> st" "st < 2 ^ length (format_0b 0 p)"
  shows "Galois_fround (length (format_0b 0 p)) (format_0b 0 p) st
           = Inr (spec_galois_step (spec_tap (length (format_0b 0 p)) p) st)"
proof -
  let ?fo = "length (format_0b 0 p)"
  from p have p0: "0 < p" by simp
  have fo: "0 < ?fo" by (rule format_0b_0_length_pos)
  have fl: "?fo = floorlog 2 (nat p)" using p0 by (rule format_0b_0_length)
  have L: "length (format_0b ?fo st) = ?fo"
    using format_0b_in_range [OF st fo] by simp
  have tap: "\<And>j. j < ?fo - Suc 0 \<Longrightarrow> (format_0b 0 p ! Suc j = CHR ''1'') = spec_tap ?fo p ! Suc j"
    using fl by (intro poly_str_tap [OF p0]) simp_all
  have "map (\<lambda>j. if j < ?fo - 1
                  then (if format_0b 0 p ! (j + 1) = CHR ''1''
                        then stage_bits ?fo st ! (j + 1) \<noteq> stage_bits ?fo st ! 0
                        else stage_bits ?fo st ! (j + 1))
                  else stage_bits ?fo st ! 0) [0..<?fo]
      = map (\<lambda>j. if j < ?fo - 1
                  then (if spec_tap ?fo p ! (j + 1)
                        then stage_bits ?fo st ! (j + 1) \<noteq> stage_bits ?fo st ! 0
                        else stage_bits ?fo st ! (j + 1))
                  else stage_bits ?fo st ! 0) [0..<?fo]"
    by (rule map_cong) (simp_all add: tap)
  then show ?thesis
    using Galois_fround_stages [OF st(1) fo order_refl]
    by (simp only: L) (simp add: spec_galois_step_def Let_def)
qed

lemma spec_galois_step_tap0:
  "spec_galois_step (tap[0 := b]) st = spec_galois_step tap st"
  by (simp add: spec_galois_step_def Let_def cong: map_cong)

text \<open>
  Claim C2. For the Galois register built from a polynomial \<open>p \<ge> 1\<close> and any state \<open>s\<close>
  with \<open>0 \<le> s < 2 ^ field_order\<close>, \<^verbatim>\<open>next()\<close> succeeds, and the state it stores and
  returns is the one the rule of section 4.3 gives. Position 0 of the tap vector is never
  consulted: the rule gives the same state whatever \<open>tap[0]\<close> is, and the round function
  gives the same result whatever the first character of \<^verbatim>\<open>poly_str\<close> is.
\<close>

theorem Galois_next_galois_rule:
  assumes "1 \<le> p" "0 \<le> s" "s < 2 ^ field_order (Galois_init p s0)"
  shows "Galois_next ((Galois_init p s0)\<lparr>state := s\<rparr>) =
           Inr ((Galois_init p s0)
                  \<lparr>state := spec_galois_step (spec_tap (field_order (Galois_init p s0)) p) s\<rparr>,
                spec_galois_step (spec_tap (field_order (Galois_init p s0)) p) s)
         \<and> (\<forall>b. spec_galois_step ((spec_tap (field_order (Galois_init p s0)) p)[0 := b]) s
                  = spec_galois_step (spec_tap (field_order (Galois_init p s0)) p) s)
         \<and> (\<forall>fo c c' cs. Galois_fround fo (c # cs) s = Galois_fround fo (c' # cs) s)"
proof -
  from assms have "Galois_fround (length (format_0b 0 p)) (format_0b 0 p) s
           = Inr (spec_galois_step (spec_tap (length (format_0b 0 p)) p) s)"
    by (intro Galois_fround_spec) simp_all
  then show ?thesis
    using Galois_fround_tap0 by (simp add: Galois_next_def Galois_round_def spec_galois_step_tap0)
qed

text \<open>The example of section 8: polynomial \<open>0b10011\<close>, state \<open>0b00001\<close>; one step gives
  \<open>0b00010\<close>.\<close>

theorem Galois_next_galois_rule_witness:
  "(1::int) \<le> 19 \<and> (0::int) \<le> 1 \<and> (1::int) < 2 ^ field_order (Galois_init 19 1)
   \<and> Galois_init 19 1 = \<lparr>poly = 19, state = 1, state_init = 1, field_order = 5\<rparr>
   \<and> Galois_next (Galois_init 19 1)
       = Inr (\<lparr>poly = 19, state = 2, state_init = 1, field_order = 5\<rparr>, 2)"
proof -
  have i: "Galois_init 19 1 = \<lparr>poly = 19, state = 1, state_init = 1, field_order = 5\<rparr>"
    by code_simp
  have v: "spec_galois_step (spec_tap 5 19) 1 = 2" by code_simp
  show ?thesis
    using Galois_next_galois_rule [of 19 1 1] by (simp add: i v)
qed

section \<open>Rounds succeed and keep the state in range\<close>

lemma LFSR_fround_ok:
  assumes p: "1 \<le> p" and fo: "0 < fo" and s: "0 \<le> s"
  shows "\<exists>s'. LFSR_fround fo (format_0b fo p) s = Inr s'
            \<and> 0 \<le> s' \<and> (s < 2 ^ fo \<longrightarrow> s' < 2 ^ fo)"
proof (cases "s < 2 ^ fo")
  case True
  have len: "fo \<le> length (format_0b fo p)" by (rule format_0b_length_ge)
  note eq = LFSR_fround_in_range [OF s True len LFSR_taps_nonempty [OF p fo]]
  let ?bs = "map (\<lambda>i. if i < fo - 1 then stage_bits fo s ! (i + 1)
                   else foldl (\<noteq>) False
                          (map (\<lambda>x. stage_bits fo s ! x)
                             (filter (\<lambda>x. format_0b fo p ! x = CHR ''1'') [0..<fo])))
          [0..<fo]"
  have "int_of_stages ?bs < 2 ^ length ?bs" by (rule int_of_stages_less)
  then have "int_of_stages ?bs < 2 ^ fo" by simp
  with eq int_of_stages_nonneg [of ?bs] True show ?thesis by simp
next
  case False
  have len: "fo \<le> length (format_0b fo p)" by (rule format_0b_length_ge)
  note eq = LFSR_fround_stages [OF s len LFSR_taps_nonempty [OF p fo]]
  with False show ?thesis by (simp add: int_of_stages_nonneg)
qed

lemma LFSR_round_ok:
  assumes "1 \<le> poly r" "0 < field_order r" "0 \<le> state r"
  shows "\<exists>s'. LFSR_round r = Inr (r\<lparr>state := s'\<rparr>) \<and> 0 \<le> s'
            \<and> (state r < 2 ^ field_order r \<longrightarrow> s' < 2 ^ field_order r)"
proof -
  from LFSR_fround_ok [OF assms] obtain s' where
    "LFSR_fround (field_order r) (format_0b (field_order r) (poly r)) (state r) = Inr s'"
    "0 \<le> s'" "state r < 2 ^ field_order r \<longrightarrow> s' < 2 ^ field_order r"
    by blast
  then show ?thesis by (intro exI [of _ s']) (simp add: LFSR_round_def)
qed

lemma Galois_fround_ok:
  assumes "0 \<le> s"
  shows "\<exists>s'. Galois_fround (length (format_0b 0 p)) (format_0b 0 p) s = Inr s'
            \<and> 0 \<le> s' \<and> s' < 2 ^ length (format_0b 0 p)"
proof -
  let ?fo = "length (format_0b 0 p)"
  have fo: "0 < ?fo" by (rule format_0b_0_length_pos)
  note eq = Galois_fround_stages [OF assms fo order_refl]
  let ?bs = "map (\<lambda>j. if j < ?fo - 1
                  then (if format_0b 0 p ! (j + 1) = CHR ''1''
                        then stage_bits (length (format_0b ?fo s)) s ! (j + 1)
                               \<noteq> stage_bits (length (format_0b ?fo s)) s ! 0
                        else stage_bits (length (format_0b ?fo s)) s ! (j + 1))
                  else stage_bits (length (format_0b ?fo s)) s ! 0) [0..<?fo]"
  have "int_of_stages ?bs < 2 ^ length ?bs" by (rule int_of_stages_less)
  then have "int_of_stages ?bs < 2 ^ ?fo" by simp
  with eq int_of_stages_nonneg [of ?bs] show ?thesis by simp
qed

lemma Galois_round_ok:
  assumes "Galois_wf r" "0 \<le> state r"
  shows "\<exists>s'. Galois_round r = Inr (r\<lparr>state := s'\<rparr>) \<and> 0 \<le> s' \<and> s' < 2 ^ field_order r"
proof -
  from assms(1) have fo: "field_order r = length (format_0b 0 (poly r))"
    by (simp add: Galois_wf_def)
  from Galois_fround_ok [OF assms(2), of "poly r"] show ?thesis
    by (auto simp: Galois_round_def fo)
qed

text \<open>Loops over a round function that keeps an invariant.\<close>

lemma rounds_loop_inv:
  assumes step: "\<And>r. I r \<Longrightarrow> \<exists>s'. rnd r = Inr (r\<lparr>state := s'\<rparr>) \<and> I (r\<lparr>state := s'\<rparr>)"
  shows "I r \<Longrightarrow> \<exists>s'. rounds_loop rnd n r = Inr (r\<lparr>state := s'\<rparr>) \<and> I (r\<lparr>state := s'\<rparr>)
                       \<and> (n = 0 \<longrightarrow> s' = state r)"
proof (induction n arbitrary: r)
  case 0
  then show ?case by (intro exI [of _ "state r"]) simp
next
  case (Suc n)
  from step [OF Suc.prems] obtain s1 where s1: "rnd r = Inr (r\<lparr>state := s1\<rparr>)" "I (r\<lparr>state := s1\<rparr>)"
    by blast
  from Suc.IH [OF s1(2)] obtain s2 where
    "rounds_loop rnd n (r\<lparr>state := s1\<rparr>) = Inr (r\<lparr>state := s1, state := s2\<rparr>)"
    "I (r\<lparr>state := s1, state := s2\<rparr>)" by blast
  with s1 show ?case by (intro exI [of _ s2]) simp
qed

lemma rounds_loop_snoc:
  "rounds_loop rnd (Suc n) r =
     (case rounds_loop rnd n r of Inl e \<Rightarrow> Inl e | Inr r' \<Rightarrow> rnd r')"
proof (induction n arbitrary: r)
  case 0
  show ?case by (simp split: sum.split)
next
  case (Suc n)
  show ?case
  proof (cases "rnd r")
    case (Inl e)
    then show ?thesis by simp
  next
    case (Inr r')
    have "rounds_loop rnd (Suc (Suc n)) r = rounds_loop rnd (Suc n) r'"
      using Inr by simp
    also have "\<dots> = (case rounds_loop rnd n r' of Inl e \<Rightarrow> Inl e | Inr r'' \<Rightarrow> rnd r'')"
      by (rule Suc)
    also have "\<dots> = (case rounds_loop rnd (Suc n) r of Inl e \<Rightarrow> Inl e | Inr r'' \<Rightarrow> rnd r'')"
      using Inr by simp
    finally show ?thesis .
  qed
qed

lemma next_calls_rounds_loop:
  assumes "\<And>r. nxt r = (case rnd r of Inl e \<Rightarrow> Inl e | Inr r' \<Rightarrow> Inr (r', state r'))"
  shows "next_calls nxt n r =
           (case rounds_loop rnd n r of Inl e \<Rightarrow> Inl e | Inr r' \<Rightarrow> Inr (r', state r'))"
proof (induction n)
  case 0
  show ?case by simp
next
  case (Suc n)
  show ?case
  proof (cases "rounds_loop rnd n r")
    case (Inl e)
    with Suc show ?thesis by (simp add: rounds_loop_snoc del: rounds_loop.simps)
  next
    case (Inr r')
    with Suc assms [of r'] show ?thesis by (simp add: rounds_loop_snoc del: rounds_loop.simps)
  qed
qed

section \<open>Iteration, enumeration and lifecycle\<close>

lemma LFSR_inv_step:
  assumes "1 \<le> poly r \<and> 0 < field_order r \<and> 0 \<le> state r"
  shows "\<exists>s'. LFSR_round r = Inr (r\<lparr>state := s'\<rparr>)
            \<and> (1 \<le> poly (r\<lparr>state := s'\<rparr>) \<and> 0 < field_order (r\<lparr>state := s'\<rparr>)
                 \<and> 0 \<le> state (r\<lparr>state := s'\<rparr>))"
  using LFSR_round_ok [of r] assms by auto

lemma LFSR_inv_step_range:
  assumes "1 \<le> poly r \<and> 0 < field_order r \<and> in_range r"
  shows "\<exists>s'. LFSR_round r = Inr (r\<lparr>state := s'\<rparr>)
            \<and> (1 \<le> poly (r\<lparr>state := s'\<rparr>) \<and> 0 < field_order (r\<lparr>state := s'\<rparr>)
                 \<and> in_range (r\<lparr>state := s'\<rparr>))"
  using LFSR_round_ok [of r] assms by (auto simp: in_range_def)

lemma Galois_inv_step:
  assumes "Galois_wf r \<and> 0 \<le> state r"
  shows "\<exists>s'. Galois_round r = Inr (r\<lparr>state := s'\<rparr>)
            \<and> (Galois_wf (r\<lparr>state := s'\<rparr>) \<and> 0 \<le> state (r\<lparr>state := s'\<rparr>))"
  using Galois_round_ok [of r] assms by (auto simp: Galois_wf_def)

lemma Galois_inv_step_range:
  assumes "Galois_wf r \<and> in_range r"
  shows "\<exists>s'. Galois_round r = Inr (r\<lparr>state := s'\<rparr>)
            \<and> (Galois_wf (r\<lparr>state := s'\<rparr>) \<and> in_range (r\<lparr>state := s'\<rparr>))"
  using Galois_round_ok [of r] assms by (auto simp: Galois_wf_def in_range_def)

lemma table_loop_states:
  assumes step: "\<And>r. I r \<Longrightarrow> \<exists>s'. rnd r = Inr (r\<lparr>state := s'\<rparr>) \<and> I (r\<lparr>state := s'\<rparr>)"
  shows "I r \<Longrightarrow> table_loop rnd xs r t =
     Inr (projr (rounds_loop rnd (length xs) r),
          \<lparr>Cycle = Cycle t @ map int xs,
           State = State t @ map (\<lambda>k. state (projr (rounds_loop rnd k r))) [0..<length xs],
           Register_State = Register_State t
              @ map (\<lambda>k. format_0b (field_order r) (state (projr (rounds_loop rnd k r))))
                  [0..<length xs]\<rparr>)"
proof (induction xs arbitrary: r t)
  case Nil
  show ?case by simp
next
  case (Cons x xs)
  from step [OF Cons.prems] obtain s1 where s1: "rnd r = Inr (r\<lparr>state := s1\<rparr>)" "I (r\<lparr>state := s1\<rparr>)"
    by blast
  let ?r1 = "r\<lparr>state := s1\<rparr>"
  let ?t1 = "\<lparr>Cycle = Cycle t @ [int x], State = State t @ [state r],
             Register_State = Register_State t @ [format_0b (field_order r) (state r)]\<rparr>"
  have "table_loop rnd (x # xs) r t = table_loop rnd xs ?r1 ?t1" using s1(1) by simp
  also note Cons.IH [OF s1(2), of ?t1]
  finally show ?case using s1(1)
    by (simp add: map_upt_Suc del: upt_Suc)
qed

lemma loop_successor:
  assumes step: "\<And>r. I r \<Longrightarrow> \<exists>s'. rnd r = Inr (r\<lparr>state := s'\<rparr>) \<and> I (r\<lparr>state := s'\<rparr>)"
    and r: "I r"
  shows "rnd (r\<lparr>state := state (projr (rounds_loop rnd i r))\<rparr>)
           = Inr (r\<lparr>state := state (projr (rounds_loop rnd (Suc i) r))\<rparr>)
         \<and> I (r\<lparr>state := state (projr (rounds_loop rnd i r))\<rparr>)"
proof -
  from rounds_loop_inv [of I rnd r i, OF step r] obtain si where
    si: "rounds_loop rnd i r = Inr (r\<lparr>state := si\<rparr>)" "I (r\<lparr>state := si\<rparr>)" by blast
  from step [OF si(2)] obtain s' where s': "rnd (r\<lparr>state := si\<rparr>) = Inr (r\<lparr>state := si, state := s'\<rparr>)"
    by blast
  have "rounds_loop rnd (Suc i) r = rnd (r\<lparr>state := si\<rparr>)"
    by (simp only: rounds_loop_snoc si sum.case)
  with si s' show ?thesis by simp
qed

lemma table_loop_spec:
  assumes step: "\<And>r. I r \<Longrightarrow> \<exists>s'. rnd r = Inr (r\<lparr>state := s'\<rparr>) \<and> I (r\<lparr>state := s'\<rparr>)"
    and r: "I r"
  shows "\<exists>s t. table_loop rnd [0..<N] r \<lparr>Cycle = [], State = [], Register_State = []\<rparr>
                  = Inr (r\<lparr>state := s\<rparr>, t)
           \<and> Cycle t = map int [0..<N]
           \<and> length (State t) = N
           \<and> Register_State t = map (format_0b (field_order r)) (State t)
           \<and> (0 < N \<longrightarrow> State t ! 0 = state r)
           \<and> (\<forall>i. Suc i < N \<longrightarrow>
                  rnd (r\<lparr>state := State t ! i\<rparr>) = Inr (r\<lparr>state := State t ! Suc i\<rparr>))
           \<and> (\<forall>i < N. I (r\<lparr>state := State t ! i\<rparr>))"
proof -
  let ?st = "\<lambda>k. state (projr (rounds_loop rnd k r))"
  let ?t = "\<lparr>Cycle = map int [0..<N], State = map ?st [0..<N],
            Register_State = map (\<lambda>k. format_0b (field_order r) (?st k)) [0..<N]\<rparr>"
  from rounds_loop_inv [of I rnd r N, OF step r] obtain sN where
    sN: "rounds_loop rnd N r = Inr (r\<lparr>state := sN\<rparr>)" by blast
  have "table_loop rnd [0..<N] r \<lparr>Cycle = [], State = [], Register_State = []\<rparr>
          = Inr (r\<lparr>state := sN\<rparr>, ?t)"
    using table_loop_states [of I rnd r "[0..<N]", OF step r] sN by simp
  moreover have "Register_State ?t = map (format_0b (field_order r)) (State ?t)" by simp
  moreover have "0 < N \<longrightarrow> State ?t ! 0 = state r" by simp
  moreover have "\<forall>i. Suc i < N \<longrightarrow>
                  rnd (r\<lparr>state := State ?t ! i\<rparr>) = Inr (r\<lparr>state := State ?t ! Suc i\<rparr>)"
    using loop_successor [of I rnd r, OF step r] by simp
  moreover have "\<forall>i < N. I (r\<lparr>state := State ?t ! i\<rparr>)"
    using loop_successor [of I rnd r, OF step r] by simp
  ultimately show ?thesis by (intro exI [of _ sN] exI [of _ ?t]) simp
qed

lemma register_state_update_eq:
  "(r :: register)\<lparr>state := s\<rparr>
     = \<lparr>poly = poly r, state = s, state_init = state_init r, field_order = field_order r\<rparr>"
  by (cases r) simp

lemma LFSR_reset_wf:
  "LFSR_wf lg r \<Longrightarrow> LFSR_reset lg (r\<lparr>state := s\<rparr>) = Inr (r\<lparr>state := state_init r\<rparr>)"
  by (simp add: LFSR_reset_def LFSR_init_def LFSR_wf_def register_state_update_eq)

lemma Galois_reset_wf:
  "Galois_wf r \<Longrightarrow> Galois_reset (r\<lparr>state := s\<rparr>) = r\<lparr>state := state_init r\<rparr>"
  by (simp add: Galois_reset_def Galois_init_def Galois_wf_def register_state_update_eq)

text \<open>
  Claim C7. For both models, \<^verbatim>\<open>state_table\<close> on a register with a non-negative state
  (and, for the Fibonacci model, a polynomial \<open>\<ge> 1\<close> and a field order \<open>\<ge> 1\<close>, the field
  order being the one the constructor derives from the polynomial, whatever the logarithm
  evaluates to) returns \<open>2 ^ field_order\<close> records:
  the cycle indices \<open>0, 1, \<dots>\<close>, the states and their renderings in \<open>field_order\<close> binary
  digits. Record 0 holds the state before the call, every later record holds the state
  one \<^verbatim>\<open>next()\<close> after the record before it, and the register that is left has its state
  equal to the initial state and every other attribute as before.
\<close>

theorem state_table_records:
  "(LFSR_wf lg r \<and> 1 \<le> poly r \<and> 0 < field_order r \<and> 0 \<le> state r \<longrightarrow>
      (\<exists>t. LFSR_state_table lg r = Inr (r\<lparr>state := state_init r\<rparr>, t)
         \<and> Cycle t = map int [0..<2 ^ field_order r]
         \<and> length (State t) = 2 ^ field_order r
         \<and> Register_State t = map (format_0b (field_order r)) (State t)
         \<and> State t ! 0 = state r
         \<and> (\<forall>i. Suc i < 2 ^ field_order r \<longrightarrow>
                LFSR_next (r\<lparr>state := State t ! i\<rparr>)
                  = Inr (r\<lparr>state := State t ! Suc i\<rparr>, State t ! Suc i))))
   \<and> (Galois_wf g \<and> 0 \<le> state g \<longrightarrow>
      (\<exists>t. Galois_state_table g = Inr (g\<lparr>state := state_init g\<rparr>, t)
         \<and> Cycle t = map int [0..<2 ^ field_order g]
         \<and> length (State t) = 2 ^ field_order g
         \<and> Register_State t = map (format_0b (field_order g)) (State t)
         \<and> State t ! 0 = state g
         \<and> (\<forall>i. Suc i < 2 ^ field_order g \<longrightarrow>
                Galois_next (g\<lparr>state := State t ! i\<rparr>)
                  = Inr (g\<lparr>state := State t ! Suc i\<rparr>, State t ! Suc i))))"
proof (intro conjI impI)
  assume a: "LFSR_wf lg r \<and> 1 \<le> poly r \<and> 0 < field_order r \<and> 0 \<le> state r"
  then have a': "1 \<le> poly r \<and> 0 < field_order r \<and> 0 \<le> state r" by simp
  from table_loop_spec [of "\<lambda>r. 1 \<le> poly r \<and> 0 < field_order r \<and> 0 \<le> state r" LFSR_round r
      "2 ^ field_order r", OF LFSR_inv_step a']
  obtain s t where t:
    "table_loop LFSR_round [0..<2 ^ field_order r] r \<lparr>Cycle = [], State = [], Register_State = []\<rparr>
       = Inr (r\<lparr>state := s\<rparr>, t)"
    "Cycle t = map int [0..<2 ^ field_order r]"
    "length (State t) = 2 ^ field_order r"
    "Register_State t = map (format_0b (field_order r)) (State t)"
    "State t ! 0 = state r"
    "\<forall>i. Suc i < 2 ^ field_order r \<longrightarrow>
        LFSR_round (r\<lparr>state := State t ! i\<rparr>) = Inr (r\<lparr>state := State t ! Suc i\<rparr>)"
    by auto
  have "LFSR_state_table lg r = Inr (r\<lparr>state := state_init r\<rparr>, t)"
    using a by (simp add: LFSR_state_table_def t(1) LFSR_reset_wf)
  with t show "\<exists>t. LFSR_state_table lg r = Inr (r\<lparr>state := state_init r\<rparr>, t)
         \<and> Cycle t = map int [0..<2 ^ field_order r]
         \<and> length (State t) = 2 ^ field_order r
         \<and> Register_State t = map (format_0b (field_order r)) (State t)
         \<and> State t ! 0 = state r
         \<and> (\<forall>i. Suc i < 2 ^ field_order r \<longrightarrow>
                LFSR_next (r\<lparr>state := State t ! i\<rparr>)
                  = Inr (r\<lparr>state := State t ! Suc i\<rparr>, State t ! Suc i))"
    by (intro exI [of _ t]) (simp add: LFSR_next_def)
next
  assume a: "Galois_wf g \<and> 0 \<le> state g"
  from table_loop_spec [of "\<lambda>r. Galois_wf r \<and> 0 \<le> state r" Galois_round g
      "2 ^ field_order g", OF Galois_inv_step a]
  obtain s t where t:
    "table_loop Galois_round [0..<2 ^ field_order g] g \<lparr>Cycle = [], State = [], Register_State = []\<rparr>
       = Inr (g\<lparr>state := s\<rparr>, t)"
    "Cycle t = map int [0..<2 ^ field_order g]"
    "length (State t) = 2 ^ field_order g"
    "Register_State t = map (format_0b (field_order g)) (State t)"
    "State t ! 0 = state g"
    "\<forall>i. Suc i < 2 ^ field_order g \<longrightarrow>
        Galois_round (g\<lparr>state := State t ! i\<rparr>) = Inr (g\<lparr>state := State t ! Suc i\<rparr>)"
    by auto
  have "Galois_state_table g = Inr (g\<lparr>state := state_init g\<rparr>, t)"
    using a by (simp add: Galois_state_table_def t(1) Galois_reset_wf)
  with t show "\<exists>t. Galois_state_table g = Inr (g\<lparr>state := state_init g\<rparr>, t)
         \<and> Cycle t = map int [0..<2 ^ field_order g]
         \<and> length (State t) = 2 ^ field_order g
         \<and> Register_State t = map (format_0b (field_order g)) (State t)
         \<and> State t ! 0 = state g
         \<and> (\<forall>i. Suc i < 2 ^ field_order g \<longrightarrow>
                Galois_next (g\<lparr>state := State t ! i\<rparr>)
                  = Inr (g\<lparr>state := State t ! Suc i\<rparr>, State t ! Suc i))"
    by (intro exI [of _ t]) (simp add: Galois_next_def)
qed

text \<open>
  The tables of the Fibonacci register with polynomial \<open>0b1011\<close> and of the Galois
  register with polynomial \<open>0b101\<close>, each advanced away from its initial state before the
  call.
\<close>

theorem state_table_records_witness:
  "((\<exists>t. LFSR_state_table exact_ceil_log \<lparr>poly = 11, state = 3, state_init = 1, field_order = 4\<rparr>
            = Inr (\<lparr>poly = 11, state = 1, state_init = 1, field_order = 4\<rparr>, t)
          \<and> length (State t) = 16 \<and> State t ! 0 = 3)
    \<and> (\<exists>t. Galois_state_table \<lparr>poly = 5, state = 4, state_init = 2, field_order = 3\<rparr>
            = Inr (\<lparr>poly = 5, state = 2, state_init = 2, field_order = 3\<rparr>, t)
          \<and> length (State t) = 8 \<and> State t ! 0 = 4))
   \<and> (LFSR_wf exact_ceil_log \<lparr>poly = 11, state = 3, state_init = 1, field_order = 4\<rparr>
   \<and> (1::int) \<le> 11 \<and> (0::nat) < 4 \<and> (0::int) \<le> 3
   \<and> Galois_wf \<lparr>poly = 5, state = 4, state_init = 2, field_order = 3\<rparr> \<and> (0::int) \<le> 4
   \<and> LFSR_state_table exact_ceil_log \<lparr>poly = 11, state = 3, state_init = 1, field_order = 4\<rparr>
       = Inr (\<lparr>poly = 11, state = 1, state_init = 1, field_order = 4\<rparr>,
              \<lparr>Cycle = [0, 1, 2, 3, 4, 5, 6, 7, 8, 9, 10, 11, 12, 13, 14, 15],
               State = [3, 6, 13, 10, 4, 8, 1, 3, 6, 13, 10, 4, 8, 1, 3, 6],
               Register_State =
                 [''0011'', ''0110'', ''1101'', ''1010'', ''0100'', ''1000'', ''0001'', ''0011'',
                  ''0110'', ''1101'', ''1010'', ''0100'', ''1000'', ''0001'', ''0011'', ''0110'']\<rparr>)
   \<and> Galois_state_table \<lparr>poly = 5, state = 4, state_init = 2, field_order = 3\<rparr>
       = Inr (\<lparr>poly = 5, state = 2, state_init = 2, field_order = 3\<rparr>,
              \<lparr>Cycle = [0, 1, 2, 3, 4, 5, 6, 7],
               State = [4, 3, 6, 7, 5, 1, 2, 4],
               Register_State =
                 [''100'', ''011'', ''110'', ''111'', ''101'', ''001'', ''010'', ''100'']\<rparr>))"
proof -
  have w1: "LFSR_wf exact_ceil_log \<lparr>poly = 11, state = 3, state_init = 1, field_order = 4\<rparr>" by code_simp
  have w2: "Galois_wf \<lparr>poly = 5, state = 4, state_init = 2, field_order = 3\<rparr>" by code_simp
  have t1: "LFSR_state_table exact_ceil_log \<lparr>poly = 11, state = 3, state_init = 1, field_order = 4\<rparr>
       = Inr (\<lparr>poly = 11, state = 1, state_init = 1, field_order = 4\<rparr>,
              \<lparr>Cycle = [0, 1, 2, 3, 4, 5, 6, 7, 8, 9, 10, 11, 12, 13, 14, 15],
               State = [3, 6, 13, 10, 4, 8, 1, 3, 6, 13, 10, 4, 8, 1, 3, 6],
               Register_State =
                 [''0011'', ''0110'', ''1101'', ''1010'', ''0100'', ''1000'', ''0001'', ''0011'',
                  ''0110'', ''1101'', ''1010'', ''0100'', ''1000'', ''0001'', ''0011'', ''0110'']\<rparr>)"
    by code_simp
  have t2: "Galois_state_table \<lparr>poly = 5, state = 4, state_init = 2, field_order = 3\<rparr>
       = Inr (\<lparr>poly = 5, state = 2, state_init = 2, field_order = 3\<rparr>,
              \<lparr>Cycle = [0, 1, 2, 3, 4, 5, 6, 7],
               State = [4, 3, 6, 7, 5, 1, 2, 4],
               Register_State =
                 [''100'', ''011'', ''110'', ''111'', ''101'', ''001'', ''010'', ''100'']\<rparr>)"
    by code_simp
  from state_table_records
    [of exact_ceil_log "\<lparr>poly = 11, state = 3, state_init = 1, field_order = 4\<rparr>"
        "\<lparr>poly = 5, state = 4, state_init = 2, field_order = 3\<rparr>"] w1 w2
  have ex: "(\<exists>t. LFSR_state_table exact_ceil_log \<lparr>poly = 11, state = 3, state_init = 1, field_order = 4\<rparr>
            = Inr (\<lparr>poly = 11, state = 1, state_init = 1, field_order = 4\<rparr>, t)
          \<and> length (State t) = 16 \<and> State t ! 0 = 3)
   \<and> (\<exists>t. Galois_state_table \<lparr>poly = 5, state = 4, state_init = 2, field_order = 3\<rparr>
            = Inr (\<lparr>poly = 5, state = 2, state_init = 2, field_order = 3\<rparr>, t)
          \<and> length (State t) = 8 \<and> State t ! 0 = 4)"
    by simp blast
  from w1 w2 t1 t2 show ?thesis by (intro conjI [OF ex]) simp_all
qed

text \<open>
  Claim C6. For both models and every register, \<^verbatim>\<open>cycle(n)\<close> with \<open>n \<ge> 0\<close> gives the
  register and the value that \<open>n\<close> calls of \<^verbatim>\<open>next()\<close> give, \<^verbatim>\<open>cycle(0)\<close> returns the
  current state and leaves the register alone, and \<^verbatim>\<open>full_cycle()\<close> is
  \<^verbatim>\<open>cycle(2 ** field_order)\<close>. On a register with a non-negative state (and, for
  the Fibonacci model, a polynomial \<open>\<ge> 1\<close> and a field order \<open>\<ge> 1\<close>, whatever the logarithm
  evaluated to) these calls do return a state.
\<close>

theorem cycle_is_repeated_next:
  "LFSR_cycle r (int n) = next_calls LFSR_next n r
   \<and> LFSR_cycle r 0 = Inr (r, state r)
   \<and> LFSR_full_cycle r = LFSR_cycle r (2 ^ field_order r)
   \<and> Galois_cycle g (int n) = next_calls Galois_next n g
   \<and> Galois_cycle g 0 = Inr (g, state g)
   \<and> Galois_full_cycle g = Galois_cycle g (2 ^ field_order g)
   \<and> (1 \<le> poly r \<and> 0 < field_order r \<and> 0 \<le> state r \<longrightarrow>
        (\<exists>r'. LFSR_cycle r (int n) = Inr (r', state r')))
   \<and> (Galois_wf g \<and> 0 \<le> state g \<longrightarrow>
        (\<exists>g'. Galois_cycle g (int n) = Inr (g', state g')))"
proof -
  have a: "LFSR_cycle r (int n) = next_calls LFSR_next n r"
    using next_calls_rounds_loop [of LFSR_next LFSR_round n r]
    by (simp add: LFSR_cycle_def LFSR_next_def)
  have b: "Galois_cycle g (int n) = next_calls Galois_next n g"
    using next_calls_rounds_loop [of Galois_next Galois_round n g]
    by (simp add: Galois_cycle_def Galois_next_def)
  have c: "nat (2 ^ k) = (2::nat) ^ k" for k by (simp add: nat_power_eq)
  have d: "1 \<le> poly r \<and> 0 < field_order r \<and> 0 \<le> state r \<longrightarrow>
        (\<exists>r'. LFSR_cycle r (int n) = Inr (r', state r'))"
  proof
    assume h: "1 \<le> poly r \<and> 0 < field_order r \<and> 0 \<le> state r"
    from rounds_loop_inv [of "\<lambda>r. 1 \<le> poly r \<and> 0 < field_order r \<and> 0 \<le> state r" LFSR_round r n,
        OF LFSR_inv_step h]
    obtain s' where "rounds_loop LFSR_round n r = Inr (r\<lparr>state := s'\<rparr>)" by blast
    then show "\<exists>r'. LFSR_cycle r (int n) = Inr (r', state r')"
      by (simp add: LFSR_cycle_def)
  qed
  have e: "Galois_wf g \<and> 0 \<le> state g \<longrightarrow>
        (\<exists>g'. Galois_cycle g (int n) = Inr (g', state g'))"
  proof
    assume h: "Galois_wf g \<and> 0 \<le> state g"
    from rounds_loop_inv [of "\<lambda>r. Galois_wf r \<and> 0 \<le> state r" Galois_round g n,
        OF Galois_inv_step h]
    obtain s' where "rounds_loop Galois_round n g = Inr (g\<lparr>state := s'\<rparr>)" by blast
    then show "\<exists>g'. Galois_cycle g (int n) = Inr (g', state g')"
      by (simp add: Galois_cycle_def)
  qed
  show ?thesis
    using a b d e
    by (simp add: LFSR_cycle_def LFSR_full_cycle_def Galois_cycle_def Galois_full_cycle_def c)
qed

theorem cycle_is_repeated_next_witness:
  "((1::int) \<le> 11 \<and> (0::nat) < 4 \<and> (0::int) \<le> 1
     \<and> Galois_wf \<lparr>poly = 19, state = 1, state_init = 1, field_order = 5\<rparr> \<and> (0::int) \<le> 1)
   \<and> next_calls LFSR_next 3 \<lparr>poly = 11, state = 1, state_init = 1, field_order = 4\<rparr>
        = Inr (\<lparr>poly = 11, state = 13, state_init = 1, field_order = 4\<rparr>, 13)
   \<and> next_calls Galois_next 3 \<lparr>poly = 19, state = 1, state_init = 1, field_order = 5\<rparr>
        = Inr (\<lparr>poly = 19, state = 8, state_init = 1, field_order = 5\<rparr>, 8)"
proof -
  have w: "(1::int) \<le> 11 \<and> (0::nat) < 4 \<and> (0::int) \<le> 1
     \<and> Galois_wf \<lparr>poly = 19, state = 1, state_init = 1, field_order = 5\<rparr> \<and> (0::int) \<le> 1"
    by code_simp
  have c1: "LFSR_cycle \<lparr>poly = 11, state = 1, state_init = 1, field_order = 4\<rparr> 3
        = Inr (\<lparr>poly = 11, state = 13, state_init = 1, field_order = 4\<rparr>, 13)"
    by code_simp
  have c2: "Galois_cycle \<lparr>poly = 19, state = 1, state_init = 1, field_order = 5\<rparr> 3
        = Inr (\<lparr>poly = 19, state = 8, state_init = 1, field_order = 5\<rparr>, 8)"
    by code_simp
  from cycle_is_repeated_next
    [of "\<lparr>poly = 11, state = 1, state_init = 1, field_order = 4\<rparr>" 3
        "\<lparr>poly = 19, state = 1, state_init = 1, field_order = 5\<rparr>"]
  have "LFSR_cycle \<lparr>poly = 11, state = 1, state_init = 1, field_order = 4\<rparr> (int 3)
          = next_calls LFSR_next 3 \<lparr>poly = 11, state = 1, state_init = 1, field_order = 4\<rparr>"
    and "Galois_cycle \<lparr>poly = 19, state = 1, state_init = 1, field_order = 5\<rparr> (int 3)
          = next_calls Galois_next 3 \<lparr>poly = 19, state = 1, state_init = 1, field_order = 5\<rparr>"
    by blast+
  with c1 c2 have "next_calls LFSR_next 3 \<lparr>poly = 11, state = 1, state_init = 1, field_order = 4\<rparr>
        = Inr (\<lparr>poly = 11, state = 13, state_init = 1, field_order = 4\<rparr>, 13)
   \<and> next_calls Galois_next 3 \<lparr>poly = 19, state = 1, state_init = 1, field_order = 5\<rparr>
        = Inr (\<lparr>poly = 19, state = 8, state_init = 1, field_order = 5\<rparr>, 8)"
    by simp
  with w show ?thesis by (rule conjI)
qed

text \<open>
  Claim C5 as stated fails: the constructor does not check the state, and a Fibonacci
  register built with the state \<open>0b111111\<close> for the polynomial \<open>0b1011\<close> (field order 4)
  is still in that state, outside \<open>[0, 2 ^ 4)\<close>, after \<^verbatim>\<open>next()\<close>.
\<close>

theorem state_range_counterexample:
  "LFSR_init exact_ceil_log 11 63 = Inr \<lparr>poly = 11, state = 63, state_init = 63, field_order = 4\<rparr>
   \<and> LFSR_next \<lparr>poly = 11, state = 63, state_init = 63, field_order = 4\<rparr>
       = Inr (\<lparr>poly = 11, state = 63, state_init = 63, field_order = 4\<rparr>, 63)
   \<and> \<not> (63::int) < 2 ^ 4"
  by code_simp

text \<open>
  Claim C5, amended. A transition keeps the state in range: when
  \<open>0 \<le> state < 2 ^ field_order\<close> holds before, it holds after \<^verbatim>\<open>next()\<close>, after
  \<^verbatim>\<open>cycle(n)\<close> for every \<open>n\<close> (so after each of its steps), after \<^verbatim>\<open>full_cycle()\<close>, and
  for every state that \<^verbatim>\<open>state_table\<close> records. For the Fibonacci model this is for every
  register with a polynomial \<open>\<ge> 1\<close> and a field order \<open>\<ge> 1\<close>, whatever field order the
  logarithm gave; for \<^verbatim>\<open>state_table\<close>, which ends in a reset, the field order is the one the
  constructor derives from the polynomial. For the Galois model the bound holds after a transition from any non-negative state.
\<close>

theorem state_range_preserved:
  "(1 \<le> poly r \<and> 0 < field_order r \<and> in_range r \<longrightarrow>
      (\<exists>r'. LFSR_next r = Inr (r', state r') \<and> in_range r')
    \<and> (\<exists>r'. LFSR_cycle r n = Inr (r', state r') \<and> in_range r')
    \<and> (\<exists>r'. LFSR_full_cycle r = Inr (r', state r') \<and> in_range r'))
   \<and> (LFSR_wf lg r \<and> 1 \<le> poly r \<and> 0 < field_order r \<and> in_range r \<longrightarrow>
      (\<exists>r' t. LFSR_state_table lg r = Inr (r', t)
           \<and> (\<forall>i < 2 ^ field_order r. 0 \<le> State t ! i \<and> State t ! i < 2 ^ field_order r)))
   \<and> (Galois_wf g \<and> in_range g \<longrightarrow>
      (\<exists>g'. Galois_next g = Inr (g', state g') \<and> in_range g')
    \<and> (\<exists>g'. Galois_cycle g n = Inr (g', state g') \<and> in_range g')
    \<and> (\<exists>g'. Galois_full_cycle g = Inr (g', state g') \<and> in_range g')
    \<and> (\<exists>g' t. Galois_state_table g = Inr (g', t)
           \<and> (\<forall>i < 2 ^ field_order g. 0 \<le> State t ! i \<and> State t ! i < 2 ^ field_order g)))
   \<and> (Galois_wf g \<and> 0 \<le> state g \<longrightarrow>
      (\<exists>g'. Galois_next g = Inr (g', state g') \<and> in_range g'))"
proof (intro conjI impI)
  assume a: "1 \<le> poly r \<and> 0 < field_order r \<and> in_range r"
  let ?I = "\<lambda>r. 1 \<le> poly r \<and> 0 < field_order r \<and> in_range r"
  note loop = rounds_loop_inv [of ?I LFSR_round r, OF LFSR_inv_step_range a]
  from loop [of 1] show "\<exists>r'. LFSR_next r = Inr (r', state r') \<and> in_range r'"
    by (auto simp: LFSR_next_def split: sum.splits)
  from loop [of "nat n"] show "\<exists>r'. LFSR_cycle r n = Inr (r', state r') \<and> in_range r'"
    by (auto simp: LFSR_cycle_def)
  from loop [of "2 ^ field_order r"]
  show "\<exists>r'. LFSR_full_cycle r = Inr (r', state r') \<and> in_range r'"
    by (auto simp: LFSR_full_cycle_def)
next
  assume w: "LFSR_wf lg r \<and> 1 \<le> poly r \<and> 0 < field_order r \<and> in_range r"
  then have a: "1 \<le> poly r \<and> 0 < field_order r \<and> in_range r" by simp
  let ?I = "\<lambda>r. 1 \<le> poly r \<and> 0 < field_order r \<and> in_range r"
  from table_loop_spec [of ?I LFSR_round r "2 ^ field_order r", OF LFSR_inv_step_range a]
  obtain s t where t:
    "table_loop LFSR_round [0..<2 ^ field_order r] r \<lparr>Cycle = [], State = [], Register_State = []\<rparr>
       = Inr (r\<lparr>state := s\<rparr>, t)"
    "\<forall>i < 2 ^ field_order r. ?I (r\<lparr>state := State t ! i\<rparr>)"
    by auto
  have "LFSR_state_table lg r = Inr (r\<lparr>state := state_init r\<rparr>, t)"
    using w by (simp add: LFSR_state_table_def t(1) LFSR_reset_wf)
  with t(2) show "\<exists>r' t. LFSR_state_table lg r = Inr (r', t)
           \<and> (\<forall>i < 2 ^ field_order r. 0 \<le> State t ! i \<and> State t ! i < 2 ^ field_order r)"
    by (auto simp: in_range_def)
next
  assume a: "Galois_wf g \<and> in_range g"
  let ?I = "\<lambda>r. Galois_wf r \<and> in_range r"
  note loop = rounds_loop_inv [of ?I Galois_round g, OF Galois_inv_step_range a]
  from loop [of 1] show "\<exists>g'. Galois_next g = Inr (g', state g') \<and> in_range g'"
    by (auto simp: Galois_next_def split: sum.splits)
  from loop [of "nat n"] show "\<exists>g'. Galois_cycle g n = Inr (g', state g') \<and> in_range g'"
    by (auto simp: Galois_cycle_def)
  from loop [of "2 ^ field_order g"]
  show "\<exists>g'. Galois_full_cycle g = Inr (g', state g') \<and> in_range g'"
    by (auto simp: Galois_full_cycle_def)
  from table_loop_spec [of ?I Galois_round g "2 ^ field_order g", OF Galois_inv_step_range a]
  obtain s t where t:
    "table_loop Galois_round [0..<2 ^ field_order g] g \<lparr>Cycle = [], State = [], Register_State = []\<rparr>
       = Inr (g\<lparr>state := s\<rparr>, t)"
    "\<forall>i < 2 ^ field_order g. ?I (g\<lparr>state := State t ! i\<rparr>)"
    by auto
  have "Galois_state_table g = Inr (g\<lparr>state := state_init g\<rparr>, t)"
    using a by (simp add: Galois_state_table_def t(1) Galois_reset_wf)
  with t(2) show "\<exists>g' t. Galois_state_table g = Inr (g', t)
           \<and> (\<forall>i < 2 ^ field_order g. 0 \<le> State t ! i \<and> State t ! i < 2 ^ field_order g)"
    by (auto simp: in_range_def)
next
  assume a: "Galois_wf g \<and> 0 \<le> state g"
  with Galois_round_ok [of g] obtain s' where
    "Galois_round g = Inr (g\<lparr>state := s'\<rparr>)" "0 \<le> s'" "s' < 2 ^ field_order g" by blast
  then show "\<exists>g'. Galois_next g = Inr (g', state g') \<and> in_range g'"
    by (simp add: Galois_next_def in_range_def)
qed


theorem state_range_preserved_witness:
  "((1::int) \<le> 11 \<and> (0::nat) < 4
      \<and> LFSR_wf exact_ceil_log \<lparr>poly = 11, state = 1, state_init = 1, field_order = 4\<rparr>
      \<and> in_range \<lparr>poly = 11, state = 1, state_init = 1, field_order = 4\<rparr>
      \<and> Galois_wf \<lparr>poly = 19, state = 1, state_init = 1, field_order = 5\<rparr>
      \<and> in_range \<lparr>poly = 19, state = 1, state_init = 1, field_order = 5\<rparr>
      \<and> Galois_wf \<lparr>poly = 19, state = 63, state_init = 63, field_order = 5\<rparr> \<and> (0::int) \<le> 63
      \<and> Galois_next \<lparr>poly = 19, state = 63, state_init = 63, field_order = 5\<rparr>
           = Inr (\<lparr>poly = 19, state = 25, state_init = 63, field_order = 5\<rparr>, 25))
   \<and> (\<exists>r'. LFSR_cycle \<lparr>poly = 11, state = 1, state_init = 1, field_order = 4\<rparr> 3 = Inr (r', state r')
          \<and> in_range r')
   \<and> (\<exists>g'. Galois_cycle \<lparr>poly = 19, state = 1, state_init = 1, field_order = 5\<rparr> 3 = Inr (g', state g')
          \<and> in_range g')
   \<and> (\<exists>g'. Galois_next \<lparr>poly = 19, state = 63, state_init = 63, field_order = 5\<rparr> = Inr (g', state g')
          \<and> in_range g')
   \<and> (\<exists>r' t. LFSR_state_table exact_ceil_log \<lparr>poly = 11, state = 1, state_init = 1, field_order = 4\<rparr> = Inr (r', t)
          \<and> 0 \<le> State t ! 5 \<and> State t ! 5 < 2 ^ 4)"
proof -
  have h: "(1::int) \<le> 11 \<and> (0::nat) < 4
      \<and> LFSR_wf exact_ceil_log \<lparr>poly = 11, state = 1, state_init = 1, field_order = 4\<rparr>
      \<and> in_range \<lparr>poly = 11, state = 1, state_init = 1, field_order = 4\<rparr>
      \<and> Galois_wf \<lparr>poly = 19, state = 1, state_init = 1, field_order = 5\<rparr>
      \<and> in_range \<lparr>poly = 19, state = 1, state_init = 1, field_order = 5\<rparr>
      \<and> Galois_wf \<lparr>poly = 19, state = 63, state_init = 63, field_order = 5\<rparr> \<and> (0::int) \<le> 63
      \<and> Galois_next \<lparr>poly = 19, state = 63, state_init = 63, field_order = 5\<rparr>
           = Inr (\<lparr>poly = 19, state = 25, state_init = 63, field_order = 5\<rparr>, 25)"
    by code_simp
  have h1: "1 \<le> poly \<lparr>poly = 11, state = 1, state_init = 1, field_order = 4\<rparr>
      \<and> 0 < field_order \<lparr>poly = 11, state = 1, state_init = 1, field_order = 4\<rparr>
      \<and> in_range \<lparr>poly = 11, state = 1, state_init = 1, field_order = 4\<rparr>"
    and h2: "Galois_wf \<lparr>poly = 19, state = 1, state_init = 1, field_order = 5\<rparr>
      \<and> in_range \<lparr>poly = 19, state = 1, state_init = 1, field_order = 5\<rparr>"
    and h3: "Galois_wf \<lparr>poly = 19, state = 63, state_init = 63, field_order = 5\<rparr>
      \<and> 0 \<le> state \<lparr>poly = 19, state = 63, state_init = 63, field_order = 5\<rparr>"
    using h by simp_all
  from h1 h2 state_range_preserved
    [of "\<lparr>poly = 11, state = 1, state_init = 1, field_order = 4\<rparr>" 3 exact_ceil_log
        "\<lparr>poly = 19, state = 1, state_init = 1, field_order = 5\<rparr>"]
  have a: "\<exists>r'. LFSR_cycle \<lparr>poly = 11, state = 1, state_init = 1, field_order = 4\<rparr> 3 = Inr (r', state r')
          \<and> in_range r'"
    and b: "\<exists>g'. Galois_cycle \<lparr>poly = 19, state = 1, state_init = 1, field_order = 5\<rparr> 3 = Inr (g', state g')
          \<and> in_range g'"
    by blast+
  from h3 state_range_preserved
    [of "\<lparr>poly = 11, state = 1, state_init = 1, field_order = 4\<rparr>" 3 exact_ceil_log
        "\<lparr>poly = 19, state = 63, state_init = 63, field_order = 5\<rparr>"]
  have c: "\<exists>g'. Galois_next \<lparr>poly = 19, state = 63, state_init = 63, field_order = 5\<rparr> = Inr (g', state g')
          \<and> in_range g'"
    by blast
  have h4: "LFSR_wf exact_ceil_log \<lparr>poly = 11, state = 1, state_init = 1, field_order = 4\<rparr>
      \<and> 1 \<le> poly \<lparr>poly = 11, state = 1, state_init = 1, field_order = 4\<rparr>
      \<and> 0 < field_order \<lparr>poly = 11, state = 1, state_init = 1, field_order = 4\<rparr>
      \<and> in_range \<lparr>poly = 11, state = 1, state_init = 1, field_order = 4\<rparr>"
    using h by simp
  from h4 state_range_preserved
    [of "\<lparr>poly = 11, state = 1, state_init = 1, field_order = 4\<rparr>" 3 exact_ceil_log
        "\<lparr>poly = 19, state = 1, state_init = 1, field_order = 5\<rparr>"]
  obtain r' t where t: "LFSR_state_table exact_ceil_log \<lparr>poly = 11, state = 1, state_init = 1, field_order = 4\<rparr> = Inr (r', t)"
    "\<forall>i < 2 ^ field_order \<lparr>poly = 11, state = 1, state_init = 1, field_order = 4\<rparr>.
        0 \<le> State t ! i \<and> State t ! i < 2 ^ field_order \<lparr>poly = 11, state = 1, state_init = 1, field_order = 4\<rparr>"
    by blast
  from t(2) have "0 \<le> State t ! 5 \<and> State t ! 5 < 2 ^ 4" by simp
  with t(1) have d: "\<exists>r' t. LFSR_state_table exact_ceil_log \<lparr>poly = 11, state = 1, state_init = 1, field_order = 4\<rparr> = Inr (r', t)
          \<and> 0 \<le> State t ! 5 \<and> State t ! 5 < 2 ^ 4"
    by blast
  show ?thesis by (intro conjI h a b c d)
qed

lemma LFSR_round_frame: "LFSR_round r = Inr r' \<Longrightarrow> \<exists>s. r' = r\<lparr>state := s\<rparr>"
  by (auto simp: LFSR_round_def split: sum.splits)

lemma Galois_round_frame: "Galois_round r = Inr r' \<Longrightarrow> \<exists>s. r' = r\<lparr>state := s\<rparr>"
  by (auto simp: Galois_round_def split: sum.splits)

lemma rounds_loop_frame:
  assumes "\<And>r r'. rnd r = Inr r' \<Longrightarrow> \<exists>s. r' = r\<lparr>state := s\<rparr>"
  shows "rounds_loop rnd n r = Inr r' \<Longrightarrow> \<exists>s. r' = r\<lparr>state := s\<rparr>"
proof (induction n arbitrary: r)
  case 0
  then have "r' = r\<lparr>state := state r\<rparr>" by simp
  then show ?case by blast
next
  case (Suc n)
  then obtain r1 where r1: "rnd r = Inr r1" "rounds_loop rnd n r1 = Inr r'"
    by (auto split: sum.splits)
  from assms [OF r1(1)] obtain s1 where "r1 = r\<lparr>state := s1\<rparr>" by blast
  moreover from Suc.IH [OF r1(2)] obtain s where "r' = r1\<lparr>state := s\<rparr>" by blast
  ultimately have "r' = r\<lparr>state := s\<rparr>" by simp
  then show ?case by blast
qed

lemma LFSR_call_frame: "LFSR_call c r = Inr r' \<Longrightarrow> \<exists>s. r' = r\<lparr>state := s\<rparr>"
proof (cases c)
  case Call_next
  assume "LFSR_call c r = Inr r'"
  with Call_next have "LFSR_round r = Inr r'"
    by (auto simp: LFSR_next_def split: sum.splits)
  then show ?thesis by (rule LFSR_round_frame)
next
  case (Call_cycle n)
  assume "LFSR_call c r = Inr r'"
  with Call_cycle have "rounds_loop LFSR_round (nat n) r = Inr r'"
    by (auto simp: LFSR_cycle_def split: sum.splits)
  then show ?thesis
    using rounds_loop_frame [of LFSR_round "nat n" r r'] LFSR_round_frame by blast
next
  case Call_full_cycle
  assume "LFSR_call c r = Inr r'"
  with Call_full_cycle have "rounds_loop LFSR_round (2 ^ field_order r) r = Inr r'"
    by (auto simp: LFSR_full_cycle_def split: sum.splits)
  then show ?thesis
    using rounds_loop_frame [of LFSR_round "2 ^ field_order r" r r'] LFSR_round_frame by blast
qed

lemma Galois_call_frame: "Galois_call c r = Inr r' \<Longrightarrow> \<exists>s. r' = r\<lparr>state := s\<rparr>"
proof (cases c)
  case Call_next
  assume "Galois_call c r = Inr r'"
  with Call_next have "Galois_round r = Inr r'"
    by (auto simp: Galois_next_def split: sum.splits)
  then show ?thesis by (rule Galois_round_frame)
next
  case (Call_cycle n)
  assume "Galois_call c r = Inr r'"
  with Call_cycle have "rounds_loop Galois_round (nat n) r = Inr r'"
    by (auto simp: Galois_cycle_def split: sum.splits)
  then show ?thesis
    using rounds_loop_frame [of Galois_round "nat n" r r'] Galois_round_frame by blast
next
  case Call_full_cycle
  assume "Galois_call c r = Inr r'"
  with Call_full_cycle have "rounds_loop Galois_round (2 ^ field_order r) r = Inr r'"
    by (auto simp: Galois_full_cycle_def split: sum.splits)
  then show ?thesis
    using rounds_loop_frame [of Galois_round "2 ^ field_order r" r r'] Galois_round_frame by blast
qed

lemma run_calls_frame:
  assumes "\<And>c r r'. do_call c r = Inr r' \<Longrightarrow> \<exists>s. r' = r\<lparr>state := s\<rparr>"
  shows "run_calls do_call cs r = Inr r' \<Longrightarrow> \<exists>s. r' = r\<lparr>state := s\<rparr>"
proof (induction cs arbitrary: r)
  case Nil
  then have "r' = r\<lparr>state := state r\<rparr>" by simp
  then show ?case by blast
next
  case (Cons c cs)
  then obtain r1 where r1: "do_call c r = Inr r1" "run_calls do_call cs r1 = Inr r'"
    by (auto split: sum.splits)
  from assms [OF r1(1)] obtain s1 where "r1 = r\<lparr>state := s1\<rparr>" by blast
  moreover from Cons.IH [OF r1(2)] obtain s where "r' = r1\<lparr>state := s\<rparr>" by blast
  ultimately have "r' = r\<lparr>state := s\<rparr>" by simp
  then show ?case by blast
qed

text \<open>
  Claim C8. For both models, and whatever the logarithm of the Fibonacci constructor
  evaluates to: after any sequence of \<^verbatim>\<open>next()\<close>, \<^verbatim>\<open>cycle(n)\<close> and
  \<^verbatim>\<open>full_cycle()\<close> calls on a register constructed with \<open>(p, s)\<close>, \<^verbatim>\<open>reset()\<close> gives
  back the register as constructed, whose state is \<open>s\<close>; \<^verbatim>\<open>load(s')\<close> gives the register
  that construction with \<open>(p, s')\<close> gives (so a later reset restores \<open>s'\<close>), which is the
  register with state and initial state replaced by \<open>s'\<close>; polynomial and field order are
  those of the register before.
\<close>

theorem reset_load_lifecycle:
  "(LFSR_init lg p s = Inr r0 \<and> run_calls LFSR_call cs r0 = Inr r \<longrightarrow>
       LFSR_reset lg r = Inr r0 \<and> state r0 = s
     \<and> poly r0 = poly r \<and> field_order r0 = field_order r
     \<and> LFSR_load lg r s' = LFSR_init lg p s'
     \<and> LFSR_load lg r s' = Inr (r\<lparr>state := s', state_init := s'\<rparr>))
   \<and> (run_calls Galois_call cs (Galois_init p s) = Inr g \<longrightarrow>
       Galois_reset g = Galois_init p s \<and> state (Galois_init p s) = s
     \<and> poly (Galois_reset g) = poly g \<and> field_order (Galois_reset g) = field_order g
     \<and> Galois_load g s' = Galois_init p s'
     \<and> Galois_load g s' = g\<lparr>state := s', state_init := s'\<rparr>)"
proof (intro conjI impI)
  assume a: "LFSR_init lg p s = Inr r0 \<and> run_calls LFSR_call cs r0 = Inr r"
  then obtain fo where fo: "LFSR_field_order lg p = Inr fo"
    and r0: "r0 = \<lparr>poly = p, state = s, state_init = s, field_order = fo\<rparr>"
    by (auto simp: LFSR_init_def split: sum.splits)
  from a run_calls_frame [of LFSR_call cs r0 r] LFSR_call_frame obtain x where
    r: "r = r0\<lparr>state := x\<rparr>" by blast
  show "LFSR_reset lg r = Inr r0" by (simp add: r r0 LFSR_reset_def LFSR_init_def fo)
  show "state r0 = s" by (simp add: r0)
  show "poly r0 = poly r" by (simp add: r)
  show "field_order r0 = field_order r" by (simp add: r)
  show "LFSR_load lg r s' = LFSR_init lg p s'" by (simp add: r r0 LFSR_load_def)
  show "LFSR_load lg r s' = Inr (r\<lparr>state := s', state_init := s'\<rparr>)"
    by (simp add: r r0 LFSR_load_def LFSR_init_def fo)
next
  assume a: "run_calls Galois_call cs (Galois_init p s) = Inr g"
  from a run_calls_frame [of Galois_call cs "Galois_init p s" g] Galois_call_frame obtain x where
    g: "g = (Galois_init p s)\<lparr>state := x\<rparr>" by blast
  show "Galois_reset g = Galois_init p s" by (simp add: g Galois_reset_def)
  show "state (Galois_init p s) = s" by simp
  show "poly (Galois_reset g) = poly g" by (simp add: g Galois_reset_def)
  show "field_order (Galois_reset g) = field_order g" by (simp add: g Galois_reset_def)
  show "Galois_load g s' = Galois_init p s'" by (simp add: g Galois_load_def)
  show "Galois_load g s' = g\<lparr>state := s', state_init := s'\<rparr>"
    by (simp add: g Galois_load_def Galois_init_def)
qed

theorem reset_load_lifecycle_witness:
  "(LFSR_init exact_ceil_log 11 1 = Inr \<lparr>poly = 11, state = 1, state_init = 1, field_order = 4\<rparr>
     \<and> run_calls LFSR_call [Call_next, Call_cycle 2, Call_full_cycle]
           \<lparr>poly = 11, state = 1, state_init = 1, field_order = 4\<rparr>
         = Inr \<lparr>poly = 11, state = 4, state_init = 1, field_order = 4\<rparr>
     \<and> run_calls Galois_call [Call_next, Call_cycle 2, Call_full_cycle] (Galois_init 19 1)
         = Inr \<lparr>poly = 19, state = 28, state_init = 1, field_order = 5\<rparr>)
   \<and> LFSR_reset exact_ceil_log \<lparr>poly = 11, state = 4, state_init = 1, field_order = 4\<rparr>
        = Inr \<lparr>poly = 11, state = 1, state_init = 1, field_order = 4\<rparr>
   \<and> LFSR_load exact_ceil_log \<lparr>poly = 11, state = 4, state_init = 1, field_order = 4\<rparr> 9 = LFSR_init exact_ceil_log 11 9
   \<and> Galois_reset \<lparr>poly = 19, state = 28, state_init = 1, field_order = 5\<rparr> = Galois_init 19 1
   \<and> Galois_load \<lparr>poly = 19, state = 28, state_init = 1, field_order = 5\<rparr> 9 = Galois_init 19 9"
proof -
  have h: "LFSR_init exact_ceil_log 11 1 = Inr \<lparr>poly = 11, state = 1, state_init = 1, field_order = 4\<rparr>
     \<and> run_calls LFSR_call [Call_next, Call_cycle 2, Call_full_cycle]
           \<lparr>poly = 11, state = 1, state_init = 1, field_order = 4\<rparr>
         = Inr \<lparr>poly = 11, state = 4, state_init = 1, field_order = 4\<rparr>
     \<and> run_calls Galois_call [Call_next, Call_cycle 2, Call_full_cycle] (Galois_init 19 1)
         = Inr \<lparr>poly = 19, state = 28, state_init = 1, field_order = 5\<rparr>"
    by code_simp
  from h reset_load_lifecycle
    [of exact_ceil_log 11 1 "\<lparr>poly = 11, state = 1, state_init = 1, field_order = 4\<rparr>"
        "[Call_next, Call_cycle 2, Call_full_cycle]"
        "\<lparr>poly = 11, state = 4, state_init = 1, field_order = 4\<rparr>" 9]
  have a: "LFSR_reset exact_ceil_log \<lparr>poly = 11, state = 4, state_init = 1, field_order = 4\<rparr>
        = Inr \<lparr>poly = 11, state = 1, state_init = 1, field_order = 4\<rparr>"
    and b: "LFSR_load exact_ceil_log \<lparr>poly = 11, state = 4, state_init = 1, field_order = 4\<rparr> 9 = LFSR_init exact_ceil_log 11 9"
    by blast+
  from h reset_load_lifecycle
    [of _ 19 1 _ "[Call_next, Call_cycle 2, Call_full_cycle]" _
        9 "\<lparr>poly = 19, state = 28, state_init = 1, field_order = 5\<rparr>"]
  have c: "Galois_reset \<lparr>poly = 19, state = 28, state_init = 1, field_order = 5\<rparr> = Galois_init 19 1"
    and d: "Galois_load \<lparr>poly = 19, state = 28, state_init = 1, field_order = 5\<rparr> 9 = Galois_init 19 9"
    by blast+
  show ?thesis by (intro conjI h a b c d)
qed

section \<open>Degenerate polynomials and the algebraic form\<close>

text \<open>
  Claim C4 as stated fails: neither constructor checks the polynomial. The Fibonacci
  register with polynomial 1 is constructed, with field order 0, and the Galois register
  with polynomial 0 is constructed, with field order 1.
\<close>

theorem construction_rejects_counterexample:
  "LFSR_init exact_ceil_log 1 0 = Inr \<lparr>poly = 1, state = 0, state_init = 0, field_order = 0\<rparr>
   \<and> Galois_init 0 0 = \<lparr>poly = 0, state = 0, state_init = 0, field_order = 1\<rparr>"
  by code_simp

text \<open>
  Claim C4, amended. Construction does not validate the polynomial and knows no
  InvalidPolynomial error. For the Fibonacci model, polynomial 0 fails with the
  OverflowError that \<^verbatim>\<open>ceil\<close> raises on the infinite logarithm, and polynomial 1 yields
  a register of field order 0, the logarithm of 1 being 0 exactly. For the Galois model, polynomial 0 yields a register of
  field order 1.
\<close>

theorem construction_degenerate_polynomials:
  "LFSR_init lg 0 s = Inl OverflowError
   \<and> LFSR_init lg 1 s = Inr \<lparr>poly = 1, state = s, state_init = s, field_order = 0\<rparr>
   \<and> Galois_init 0 s = \<lparr>poly = 0, state = s, state_init = s, field_order = 1\<rparr>"
proof -
  have "format_0b 0 0 = ''0''" by code_simp
  moreover have "LFSR_field_order lg 0 = Inl OverflowError"
    by (simp add: LFSR_field_order_def)
  moreover have "LFSR_field_order lg 1 = Inr 0"
    by (simp add: LFSR_field_order_def double_limit_def)
  ultimately show ?thesis
    by (simp add: LFSR_init_def Galois_init_def)
qed

lemma str_join_snoc:
  "str_join sep (xs @ [x]) = (if xs = [] then x else str_join sep xs @ sep @ x)"
  by (induction sep xs rule: str_join.induct) simp_all

lemma Galois_algebraic_taps:
  assumes wf: "Galois_wf r" and p: "1 \<le> poly r"
  shows "Galois_algebraic r =
     str_join '' + ''
       (map (\<lambda>i. ''x ^ '' @ str_int (int (field_order r) - int i))
          (filter (\<lambda>i. spec_tap (field_order r) (poly r) ! i) [0..<field_order r - 1])
        @ (if spec_tap (field_order r) (poly r) ! (field_order r - 1) then [''x''] else [])
        @ [''1''])"
proof -
  let ?fo = "field_order r"
  from p have p0: "0 < poly r" by simp
  have fl: "?fo = floorlog 2 (nat (poly r))"
    using wf p0 by (simp add: Galois_wf_def format_0b_0_length)
  have fo: "0 < ?fo" using wf format_0b_0_length_pos [of "poly r"] by (simp add: Galois_wf_def)
  have tap: "\<And>i. i < ?fo \<Longrightarrow>
      (format_0b ?fo (poly r) ! i = CHR ''1'') = spec_tap ?fo (poly r) ! i"
    using fl by (intro poly_str_tap [OF p0]) simp_all
  have f: "filter (\<lambda>x. format_0b ?fo (poly r) ! x = CHR ''1'') [0..<?fo - 1]
             = filter (\<lambda>i. spec_tap ?fo (poly r) ! i) [0..<?fo - 1]"
    by (rule filter_cong) (simp_all add: tap)
  have l: "(format_0b ?fo (poly r) ! (?fo - 1) = CHR ''1'') = spec_tap ?fo (poly r) ! (?fo - 1)"
    using fo by (intro tap) simp
  from fo have nz: "(field_order r = 0) = False" by simp
  show ?thesis
    unfolding Galois_algebraic_def Let_def f nz if_False l
    by (cases "spec_tap ?fo (poly r) ! (?fo - 1)") simp_all
qed

text \<open>
  Claim C10. For the Galois model, \<^verbatim>\<open>algebraic\<close> joins with \<^verbatim>\<open>' + '\<close> a list of terms
  whose last element is always \<^verbatim>\<open>'1'\<close>: the rendered string is \<^verbatim>\<open>'1'\<close> or ends in
  \<^verbatim>\<open>' + 1'\<close>, for every polynomial. Only the terms before it depend on the polynomial:
  \<open>x ^ (field_order - i)\<close> for every set bit \<open>i\<close> among the first \<open>field_order - 1\<close>
  positions, and \<open>x\<close> for the last position.
\<close>

theorem Galois_algebraic_constant_term:
  "(\<exists>terms. Galois_algebraic r = str_join '' + '' (terms @ [''1'']))
   \<and> (Galois_algebraic r = ''1'' \<or> (\<exists>front. Galois_algebraic r = front @ '' + 1''))
   \<and> (Galois_wf r \<and> 1 \<le> poly r \<longrightarrow>
        Galois_algebraic r =
          str_join '' + ''
            (map (\<lambda>i. ''x ^ '' @ str_int (int (field_order r) - int i))
               (filter (\<lambda>i. spec_tap (field_order r) (poly r) ! i) [0..<field_order r - 1])
             @ (if spec_tap (field_order r) (poly r) ! (field_order r - 1) then [''x''] else [])
             @ [''1'']))"
proof -
  obtain terms where t: "Galois_algebraic r = str_join '' + '' (terms @ [''1''])"
    by (simp add: Galois_algebraic_def Let_def)
  then have "Galois_algebraic r = ''1'' \<or> (\<exists>front. Galois_algebraic r = front @ '' + 1'')"
    by (cases "terms = []") (simp_all add: str_join_snoc)
  with t Galois_algebraic_taps [of r] show ?thesis by blast
qed

text \<open>The polynomial \<open>0b10010\<close>, whose least significant bit is 0, and \<open>0b10011\<close>.\<close>

theorem Galois_algebraic_constant_term_witness:
  "(Galois_wf (Galois_init 18 0) \<and> 1 \<le> poly (Galois_init 18 0)
     \<and> Galois_algebraic (Galois_init 18 0) = ''x ^ 5 + x ^ 2 + 1''
     \<and> Galois_algebraic (Galois_init 19 0) = ''x ^ 5 + x ^ 2 + x + 1''
     \<and> Galois_algebraic (Galois_init 1 0) = ''x + 1''
     \<and> Galois_algebraic (Galois_init 0 0) = ''1'')
   \<and> str_join '' + ''
            (map (\<lambda>i. ''x ^ '' @ str_int (int (field_order (Galois_init 18 0)) - int i))
               (filter (\<lambda>i. spec_tap (field_order (Galois_init 18 0)) (poly (Galois_init 18 0)) ! i)
                  [0..<field_order (Galois_init 18 0) - 1])
             @ (if spec_tap (field_order (Galois_init 18 0)) (poly (Galois_init 18 0))
                      ! (field_order (Galois_init 18 0) - 1) then [''x''] else [])
             @ [''1''])
       = ''x ^ 5 + x ^ 2 + 1''"
proof -
  have h: "Galois_wf (Galois_init 18 0) \<and> 1 \<le> poly (Galois_init 18 0)
     \<and> Galois_algebraic (Galois_init 18 0) = ''x ^ 5 + x ^ 2 + 1''
     \<and> Galois_algebraic (Galois_init 19 0) = ''x ^ 5 + x ^ 2 + x + 1''
     \<and> Galois_algebraic (Galois_init 1 0) = ''x + 1''
     \<and> Galois_algebraic (Galois_init 0 0) = ''1''"
    by code_simp
  from h Galois_algebraic_constant_term [of "Galois_init 18 0"]
  have "Galois_algebraic (Galois_init 18 0) =
     str_join '' + ''
            (map (\<lambda>i. ''x ^ '' @ str_int (int (field_order (Galois_init 18 0)) - int i))
               (filter (\<lambda>i. spec_tap (field_order (Galois_init 18 0)) (poly (Galois_init 18 0)) ! i)
                  [0..<field_order (Galois_init 18 0) - 1])
             @ (if spec_tap (field_order (Galois_init 18 0)) (poly (Galois_init 18 0))
                      ! (field_order (Galois_init 18 0) - 1) then [''x''] else [])
             @ [''1''])"
    by blast
  with h have "str_join '' + ''
            (map (\<lambda>i. ''x ^ '' @ str_int (int (field_order (Galois_init 18 0)) - int i))
               (filter (\<lambda>i. spec_tap (field_order (Galois_init 18 0)) (poly (Galois_init 18 0)) ! i)
                  [0..<field_order (Galois_init 18 0) - 1])
             @ (if spec_tap (field_order (Galois_init 18 0)) (poly (Galois_init 18 0))
                      ! (field_order (Galois_init 18 0) - 1) then [''x''] else [])
             @ [''1''])
       = ''x ^ 5 + x ^ 2 + 1''"
    by (simp only:)
  with h show ?thesis by (rule conjI)
qed

section \<open>Composition of registers\<close>

lemma bit_concat_snoc: "bit_concat (fs @ [(w, v)]) = bit_concat fs * 2 ^ w + v"
  by (simp add: bit_concat_def)

lemma stages_concat_value:
  "\<forall>f \<in> set fs. 0 \<le> snd f \<and> snd f < 2 ^ fst f \<Longrightarrow>
     int_of_stages (concat (map (\<lambda>f. stage_bits (fst f) (snd f)) fs)) = bit_concat fs"
proof (induction fs rule: rev_induct)
  case Nil
  show ?case by (simp add: int_of_stages_def bit_concat_def)
next
  case (snoc f fs)
  obtain w v where f: "f = (w, v)" by (cases f)
  with snoc.prems have "0 \<le> v" "v < 2 ^ w" by simp_all
  then have "int_of_stages (stage_bits w v) = v" by (rule int_of_stages_stage_bits)
  moreover from snoc have "int_of_stages (concat (map (\<lambda>f. stage_bits (fst f) (snd f)) fs)) = bit_concat fs"
    by simp
  ultimately show ?case by (simp add: f int_of_stages_append bit_concat_snoc)
qed

lemma stages_concat_length:
  "length (concat (map (\<lambda>f. stage_bits (fst f) (snd f)) fs)) = sum_list (map fst fs)"
  by (induction fs) simp_all

lemma format_concat:
  "\<forall>f \<in> set fs. 0 < fst f \<and> 0 \<le> snd f \<and> snd f < 2 ^ fst f \<Longrightarrow>
     concat (map (\<lambda>f. format_0b (fst f) (snd f)) fs)
       = map bchar (concat (map (\<lambda>f. stage_bits (fst f) (snd f)) fs))"
  by (induction fs) (simp_all add: format_0b_in_range)

lemma bit_concat_bounds:
  assumes "\<forall>f \<in> set fs. 0 \<le> snd f \<and> snd f < 2 ^ fst f"
  shows "0 \<le> bit_concat fs" "bit_concat fs < 2 ^ sum_list (map fst fs)"
  using stages_concat_value [OF assms] stages_concat_length [of fs]
    int_of_stages_nonneg [of "concat (map (\<lambda>f. stage_bits (fst f) (snd f)) fs)"]
    int_of_stages_less [of "concat (map (\<lambda>f. stage_bits (fst f) (snd f)) fs)"]
  by simp_all

lemma bit_concat_Cons:
  assumes "\<forall>f \<in> set ((w, v) # fs). 0 \<le> snd f \<and> snd f < 2 ^ fst f"
  shows "bit_concat ((w, v) # fs) = v * 2 ^ sum_list (map fst fs) + bit_concat fs"
proof -
  from assms have v: "0 \<le> v" "v < 2 ^ w"
    and fs: "\<forall>f \<in> set fs. 0 \<le> snd f \<and> snd f < 2 ^ fst f" by simp_all
  have "bit_concat ((w, v) # fs)
          = int_of_stages (stage_bits w v @ concat (map (\<lambda>f. stage_bits (fst f) (snd f)) fs))"
    using stages_concat_value [OF assms] by simp
  also have "\<dots> = int_of_stages (stage_bits w v) * 2 ^ sum_list (map fst fs) + bit_concat fs"
    by (simp only: int_of_stages_append stages_concat_length stages_concat_value [OF fs])
  finally show ?thesis using v by (simp add: int_of_stages_stage_bits)
qed

lemma int_base2_fields:
  assumes ok: "\<forall>f \<in> set fs. 0 < fst f \<and> 0 \<le> snd f \<and> snd f < 2 ^ fst f" and ne: "fs \<noteq> []"
  shows "int_base2 (concat (map (\<lambda>f. format_0b (fst f) (snd f)) fs)) = Inr (bit_concat fs)"
proof -
  let ?bs = "concat (map (\<lambda>f. stage_bits (fst f) (snd f)) fs)"
  from ne obtain f fs' where fs: "fs = f # fs'" by (cases fs) auto
  with ok have "0 < fst f" by simp
  then have "0 < length ?bs" by (simp add: fs)
  then have "?bs \<noteq> []" by auto
  then have "int_base2 (map bchar ?bs) = Inr (int_of_stages ?bs)" by (rule int_base2_bits)
  moreover from ok have "int_of_stages ?bs = bit_concat fs" by (intro stages_concat_value) simp
  ultimately show ?thesis by (simp add: format_concat [OF ok])
qed

lemma elong_loop_reset:
  "\<forall>x \<in> set args. rst x = Inr (x\<lparr>state := state_init x\<rparr>) \<Longrightarrow>
     elong_loop rst args ep es =
       Inr (map (\<lambda>x. x\<lparr>state := state_init x\<rparr>) args,
            ep @ concat (map (\<lambda>x. format_0b (field_order x) (poly x)) args),
            es @ concat (map (\<lambda>x. format_0b (field_order x) (state_init x)) args))"
  by (induction args arbitrary: ep es) simp_all

lemma floorlog_concat:
  assumes v: "0 < v1" and w: "w1 = floorlog 2 (nat v1)"
    and lo: "v1 * 2 ^ W \<le> P" and hi: "P < 2 ^ (w1 + W)"
  shows "floorlog 2 (nat P) = w1 + W"
proof (rule antisym)
  from hi have "nat P < 2 ^ (w1 + W)" by (simp add: nat_less_iff)
  then show "floorlog 2 (nat P) \<le> w1 + W" by (intro floorlog_leI) simp_all
next
  from v have w1: "0 < w1" unfolding w by (simp add: floorlog_def)
  from v have "2 ^ (floorlog 2 (nat v1) - 1) \<le> nat v1"
    using floorlog_bounds [of "nat v1" 2] by simp
  then have "int (2 ^ (w1 - 1)) \<le> int (nat v1)" unfolding w by (rule of_nat_mono)
  with v have "(2::int) ^ (w1 - 1) \<le> v1" by simp
  then have "(2::int) ^ (w1 - 1) * 2 ^ W \<le> v1 * 2 ^ W" by simp
  also note lo
  finally have "(2::int) ^ (w1 - 1 + W) \<le> P" by (simp add: power_add)
  moreover from w1 have "w1 - 1 + W = w1 + W - 1" by simp
  ultimately have "(2::int) ^ (w1 + W - 1) \<le> P" by simp
  then have "2 ^ (w1 + W - 1) \<le> nat P" by (simp add: le_nat_iff)
  then show "w1 + W \<le> floorlog 2 (nat P)" by (intro floorlog_geI) simp_all
qed

lemma elong_fields:
  assumes ne: "args \<noteq> []"
    and rst: "\<forall>x \<in> set args. rst x = Inr (x\<lparr>state := state_init x\<rparr>)"
    and ok: "\<forall>x \<in> set args. 0 < field_order x \<and> 0 \<le> poly x \<and> poly x < 2 ^ field_order x
                \<and> 0 \<le> state_init x \<and> state_init x < 2 ^ field_order x"
  shows "\<exists>ep es. elong_loop rst args [] [] = Inr (map (\<lambda>x. x\<lparr>state := state_init x\<rparr>) args, ep, es)
           \<and> int_base2 ep = Inr (bit_concat (map (\<lambda>x. (field_order x, poly x)) args))
           \<and> int_base2 es = Inr (bit_concat (map (\<lambda>x. (field_order x, state_init x)) args))"
proof -
  let ?pf = "map (\<lambda>x. (field_order x, poly x)) args"
  let ?sf = "map (\<lambda>x. (field_order x, state_init x)) args"
  have "int_base2 (concat (map (\<lambda>f. format_0b (fst f) (snd f)) ?pf)) = Inr (bit_concat ?pf)"
    using ok ne by (intro int_base2_fields) auto
  moreover have "int_base2 (concat (map (\<lambda>f. format_0b (fst f) (snd f)) ?sf)) = Inr (bit_concat ?sf)"
    using ok ne by (intro int_base2_fields) auto
  ultimately show ?thesis
    by (simp add: elong_loop_reset [OF rst] comp_def)
qed

lemma concat_poly_bounds:
  assumes ok: "\<forall>x \<in> set (a # args). 0 \<le> poly x \<and> poly x < 2 ^ field_order x"
  shows "poly a * 2 ^ sum_list (map field_order args)
           \<le> bit_concat (map (\<lambda>x. (field_order x, poly x)) (a # args))"
    and "bit_concat (map (\<lambda>x. (field_order x, poly x)) (a # args))
           < 2 ^ (field_order a + sum_list (map field_order args))"
proof -
  let ?pf = "map (\<lambda>x. (field_order x, poly x)) args"
  have f: "\<forall>f \<in> set ((field_order a, poly a) # ?pf). 0 \<le> snd f \<and> snd f < 2 ^ fst f"
    using ok by auto
  then have f': "\<forall>f \<in> set ?pf. 0 \<le> snd f \<and> snd f < 2 ^ fst f" by simp
  from bit_concat_Cons [OF f] bit_concat_bounds(1) [OF f']
  show "poly a * 2 ^ sum_list (map field_order args)
           \<le> bit_concat (map (\<lambda>x. (field_order x, poly x)) (a # args))"
    by (simp add: comp_def)
  from bit_concat_bounds(2) [OF f]
  show "bit_concat (map (\<lambda>x. (field_order x, poly x)) (a # args))
           < 2 ^ (field_order a + sum_list (map field_order args))"
    by (simp add: comp_def)
qed

lemma LFSR_reset_self: "LFSR_wf lg x \<Longrightarrow> LFSR_reset lg x = Inr (x\<lparr>state := state_init x\<rparr>)"
  by (simp add: LFSR_reset_def LFSR_init_def LFSR_wf_def register_state_update_eq)

lemma Galois_reset_self: "Galois_wf x \<Longrightarrow> Galois_reset x = x\<lparr>state := state_init x\<rparr>"
  by (simp add: Galois_reset_def Galois_init_def Galois_wf_def register_state_update_eq)

lemma fits_field_order_pos: "1 \<le> (p::int) \<Longrightarrow> p < 2 ^ fo \<Longrightarrow> 0 < fo"
  by (cases fo) simp_all

lemma LFSR_from_lfsrs_fields:
  assumes ne: "args \<noteq> []"
    and ok: "\<forall>x \<in> set args. LFSR_wf lg x \<and> 1 \<le> poly x \<and> poly x < 2 ^ field_order x
                \<and> 0 \<le> state_init x \<and> state_init x < 2 ^ field_order x"
  shows "LFSR_from_lfsrs lg args =
       (case LFSR_field_order lg (bit_concat (map (\<lambda>x. (field_order x, poly x)) args)) of
          Inl e \<Rightarrow> Inl e
        | Inr fo \<Rightarrow>
            Inr (map (\<lambda>x. x\<lparr>state := state_init x\<rparr>) args,
                 \<lparr>poly = bit_concat (map (\<lambda>x. (field_order x, poly x)) args),
                  state = bit_concat (map (\<lambda>x. (field_order x, state_init x)) args),
                  state_init = bit_concat (map (\<lambda>x. (field_order x, state_init x)) args),
                  field_order = fo\<rparr>))"
proof -
  let ?P = "bit_concat (map (\<lambda>x. (field_order x, poly x)) args)"
  let ?S = "bit_concat (map (\<lambda>x. (field_order x, state_init x)) args)"
  have pos: "\<forall>x \<in> set args. 0 < field_order x"
    using ok fits_field_order_pos by blast
  have rst: "\<forall>x \<in> set args. LFSR_reset lg x = Inr (x\<lparr>state := state_init x\<rparr>)"
    using ok by (simp add: LFSR_reset_self)
  from elong_fields [of args "LFSR_reset lg", OF ne rst] ok pos
  obtain ep es where e:
    "elong_loop (LFSR_reset lg) args [] [] = Inr (map (\<lambda>x. x\<lparr>state := state_init x\<rparr>) args, ep, es)"
    "int_base2 ep = Inr ?P" "int_base2 es = Inr ?S"
    by force
  show ?thesis
    by (simp add: LFSR_from_lfsrs_def e LFSR_init_def split: sum.split)
qed

lemma concat_poly_exact:
  assumes ne: "args \<noteq> []"
    and ok: "\<forall>x \<in> set args. 1 \<le> poly x \<and> poly x < 2 ^ field_order x"
  shows "1 \<le> bit_concat (map (\<lambda>x. (field_order x, poly x)) args)"
    and "bit_concat (map (\<lambda>x. (field_order x, poly x)) args) < 2 ^ sum_list (map field_order args)"
    and "2 ^ field_order (hd args) < 2 * poly (hd args) \<Longrightarrow>
           exact_ceil_log (bit_concat (map (\<lambda>x. (field_order x, poly x)) args))
             = sum_list (map field_order args)"
proof -
  let ?P = "bit_concat (map (\<lambda>x. (field_order x, poly x)) args)"
  from ne obtain a rest where args: "args = a # rest" by (cases args) auto
  with ok have a: "0 < poly a" by simp
  have b: "\<forall>x \<in> set (a # rest). 0 \<le> poly x \<and> poly x < 2 ^ field_order x"
    using ok args by auto
  have lo: "poly a * 2 ^ sum_list (map field_order rest) \<le> ?P"
    and hi: "?P < 2 ^ (field_order a + sum_list (map field_order rest))"
    unfolding args using concat_poly_bounds [OF b] by simp_all
  from a have "1 \<le> poly a * 2 ^ sum_list (map field_order rest)"
    by (simp add: int_one_le_iff_zero_less)
  with lo show P1: "1 \<le> ?P" by simp
  from hi show "?P < 2 ^ sum_list (map field_order args)" by (simp add: args)
  assume "2 ^ field_order (hd args) < 2 * poly (hd args)"
  then have w: "(2::int) ^ field_order a < 2 * poly a" by (simp add: args)
  have "ceillog2 (nat ?P) = field_order a + sum_list (map field_order rest)"
  proof (rule ceillog2_eqI)
    from hi show "nat ?P \<le> 2 ^ (field_order a + sum_list (map field_order rest))"
      by (simp add: nat_le_iff)
  next
    from w have "(2::int) ^ field_order a * 2 ^ sum_list (map field_order rest)
                   < 2 * poly a * 2 ^ sum_list (map field_order rest)" by simp
    also have "\<dots> \<le> 2 * ?P" using lo by simp
    finally have "(2::int) ^ (field_order a + sum_list (map field_order rest)) < 2 * ?P"
      by (simp add: power_add)
    with P1 have "int (2 ^ (field_order a + sum_list (map field_order rest))) < int (2 * nat ?P)"
      by simp
    then show "2 ^ (field_order a + sum_list (map field_order rest)) < 2 * nat ?P"
      by (simp only: of_nat_less_iff)
  qed
  with P1 show "exact_ceil_log ?P = sum_list (map field_order args)"
    by (simp add: exact_ceil_log_def args)
qed

lemma ceillog2_131071: "ceillog2 131071 = 17"
  by (rule ceillog2_eqI) simp_all

text \<open>
  Claim C9 as stated fails. Two Fibonacci registers with polynomial \<open>0b10\<close> have field
  order 1 each, but their polynomials render as \<^verbatim>\<open>'10'\<close>, two digits, and the register
  composed from them has polynomial \<open>0b1010\<close> and field order 4, not 2. With no argument
  at all both builders raise ValueError, from \<^verbatim>\<open>int('', 2)\<close>. And where every polynomial
  fits its register, the field order of the result is still the one that the constructor
  derives from the concatenated polynomial: three Fibonacci registers with polynomial
  \<open>2 ^ 17 - 1\<close> have field order 17 each and compose to the polynomial \<open>2 ^ 51 - 1\<close>, for
  which the logarithm of the source evaluates to 52, not 51.
\<close>

theorem from_lfsrs_counterexample:
  "LFSR_init exact_ceil_log 2 1 = Inr \<lparr>poly = 2, state = 1, state_init = 1, field_order = 1\<rparr>
   \<and> LFSR_init exact_ceil_log 2 0 = Inr \<lparr>poly = 2, state = 0, state_init = 0, field_order = 1\<rparr>
   \<and> LFSR_from_lfsrs exact_ceil_log
        [\<lparr>poly = 2, state = 1, state_init = 1, field_order = 1\<rparr>,
         \<lparr>poly = 2, state = 0, state_init = 0, field_order = 1\<rparr>]
       = Inr ([\<lparr>poly = 2, state = 1, state_init = 1, field_order = 1\<rparr>,
               \<lparr>poly = 2, state = 0, state_init = 0, field_order = 1\<rparr>],
              \<lparr>poly = 10, state = 2, state_init = 2, field_order = 4\<rparr>)
   \<and> (4::nat) \<noteq> 1 + 1
   \<and> LFSR_from_lfsrs exact_ceil_log [] = Inl ValueError
   \<and> Galois_from_lfsrs [] = Inl ValueError
   \<and> LFSR_init ceil_log_51 131071 1
       = Inr \<lparr>poly = 131071, state = 1, state_init = 1, field_order = 17\<rparr>
   \<and> LFSR_from_lfsrs ceil_log_51
        [\<lparr>poly = 131071, state = 1, state_init = 1, field_order = 17\<rparr>,
         \<lparr>poly = 131071, state = 1, state_init = 1, field_order = 17\<rparr>,
         \<lparr>poly = 131071, state = 1, state_init = 1, field_order = 17\<rparr>]
       = Inr ([\<lparr>poly = 131071, state = 1, state_init = 1, field_order = 17\<rparr>,
               \<lparr>poly = 131071, state = 1, state_init = 1, field_order = 17\<rparr>,
               \<lparr>poly = 131071, state = 1, state_init = 1, field_order = 17\<rparr>],
              \<lparr>poly = 2 ^ 51 - 1, state = 17180000257, state_init = 17180000257, field_order = 52\<rparr>)
   \<and> (52::nat) \<noteq> 17 + 17 + 17"
proof -
  let ?lg = "ceil_log_51"
  let ?R = "\<lparr>poly = 131071, state = 1, state_init = 1, field_order = 17\<rparr>"
  have small: "LFSR_init exact_ceil_log 2 1 = Inr \<lparr>poly = 2, state = 1, state_init = 1, field_order = 1\<rparr>
   \<and> LFSR_init exact_ceil_log 2 0 = Inr \<lparr>poly = 2, state = 0, state_init = 0, field_order = 1\<rparr>
   \<and> LFSR_from_lfsrs exact_ceil_log
        [\<lparr>poly = 2, state = 1, state_init = 1, field_order = 1\<rparr>,
         \<lparr>poly = 2, state = 0, state_init = 0, field_order = 1\<rparr>]
       = Inr ([\<lparr>poly = 2, state = 1, state_init = 1, field_order = 1\<rparr>,
               \<lparr>poly = 2, state = 0, state_init = 0, field_order = 1\<rparr>],
              \<lparr>poly = 10, state = 2, state_init = 2, field_order = 4\<rparr>)
   \<and> (4::nat) \<noteq> 1 + 1
   \<and> LFSR_from_lfsrs exact_ceil_log [] = Inl ValueError
   \<and> Galois_from_lfsrs [] = Inl ValueError"
    by code_simp
  have fo17: "LFSR_field_order ?lg 131071 = Inr 17"
    by (simp add: LFSR_field_order_def double_limit_def ceil_log_51_def exact_ceil_log_def
        ceillog2_131071)
  then have i: "LFSR_init ?lg 131071 1 = Inr ?R" by (simp add: LFSR_init_def)
  have wf: "LFSR_wf ?lg ?R" using fo17 by (simp add: LFSR_wf_def)
  have P: "bit_concat (map (\<lambda>x. (field_order x, poly x)) [?R, ?R, ?R]) = 2 ^ 51 - 1"
    by (simp add: bit_concat_def)
  have S: "bit_concat (map (\<lambda>x. (field_order x, state_init x)) [?R, ?R, ?R]) = 17180000257"
    by (simp add: bit_concat_def)
  have fo52: "LFSR_field_order ?lg (2 ^ 51 - 1) = Inr 52"
    by (simp add: LFSR_field_order_def double_limit_def ceil_log_51_def)
  have "LFSR_from_lfsrs ?lg [?R, ?R, ?R]
       = Inr ([?R, ?R, ?R],
              \<lparr>poly = 2 ^ 51 - 1, state = 17180000257, state_init = 17180000257, field_order = 52\<rparr>)"
  proof -
    have ok: "\<forall>x \<in> set [?R, ?R, ?R]. LFSR_wf ?lg x \<and> 1 \<le> poly x \<and> poly x < 2 ^ field_order x
                \<and> 0 \<le> state_init x \<and> state_init x < 2 ^ field_order x"
      using wf by simp
    have "LFSR_from_lfsrs ?lg [?R, ?R, ?R] =
       (case LFSR_field_order ?lg (bit_concat (map (\<lambda>x. (field_order x, poly x)) [?R, ?R, ?R])) of
          Inl e \<Rightarrow> Inl e
        | Inr fo \<Rightarrow>
            Inr (map (\<lambda>x. x\<lparr>state := state_init x\<rparr>) [?R, ?R, ?R],
                 \<lparr>poly = bit_concat (map (\<lambda>x. (field_order x, poly x)) [?R, ?R, ?R]),
                  state = bit_concat (map (\<lambda>x. (field_order x, state_init x)) [?R, ?R, ?R]),
                  state_init = bit_concat (map (\<lambda>x. (field_order x, state_init x)) [?R, ?R, ?R]),
                  field_order = fo\<rparr>))"
      by (rule LFSR_from_lfsrs_fields [OF _ ok]) simp
    then show ?thesis unfolding P S fo52 by simp
  qed
  with small i show ?thesis by simp
qed

text \<open>
  Claim C9, amended. For both models and every non-empty list of registers of the model
  in which each polynomial \<open>p\<close> and each initial state \<open>s\<close> fits the register's own width
  (\<open>1 \<le> p < 2 ^ field_order\<close>, \<open>0 \<le> s < 2 ^ field_order\<close>; a Galois polynomial \<open>\<ge> 1\<close>
  always fits), \<^verbatim>\<open>from_lfsrs\<close> resets the arguments and builds the register whose
  polynomial and state are the concatenations of their polynomials and initial states as
  bit fields of their own widths, the first argument most significant. For the Galois
  model the field order of the result is the sum of the field orders of the arguments.
  For the Fibonacci model the constructor is the one of the class: it raises what it
  raises on the concatenated polynomial, and the field order of the result is what it
  derives from the concatenated polynomial, whatever the logarithm evaluates to. The
  concatenated polynomial \<open>P\<close> has \<open>1 \<le> P < 2 ^ n\<close> for the sum \<open>n\<close> of the field orders,
  and when the first polynomial exceeds half of \<open>2 ^ field_order\<close>, \<open>n\<close> is \<open>\<lceil>log 2 P\<rceil>\<close> in
  exact arithmetic.
\<close>

theorem from_lfsrs_concatenation:
  "(args \<noteq> []
     \<and> (\<forall>x \<in> set args. LFSR_wf lg x \<and> 1 \<le> poly x \<and> poly x < 2 ^ field_order x
                          \<and> 0 \<le> state_init x \<and> state_init x < 2 ^ field_order x) \<longrightarrow>
      LFSR_from_lfsrs lg args =
        (case LFSR_field_order lg (bit_concat (map (\<lambda>x. (field_order x, poly x)) args)) of
           Inl e \<Rightarrow> Inl e
         | Inr fo \<Rightarrow>
             Inr (map (\<lambda>x. x\<lparr>state := state_init x\<rparr>) args,
                  \<lparr>poly = bit_concat (map (\<lambda>x. (field_order x, poly x)) args),
                   state = bit_concat (map (\<lambda>x. (field_order x, state_init x)) args),
                   state_init = bit_concat (map (\<lambda>x. (field_order x, state_init x)) args),
                   field_order = fo\<rparr>))
      \<and> 1 \<le> bit_concat (map (\<lambda>x. (field_order x, poly x)) args)
      \<and> bit_concat (map (\<lambda>x. (field_order x, poly x)) args) < 2 ^ sum_list (map field_order args)
      \<and> (2 ^ field_order (hd args) < 2 * poly (hd args) \<longrightarrow>
           exact_ceil_log (bit_concat (map (\<lambda>x. (field_order x, poly x)) args))
             = sum_list (map field_order args)))
   \<and> (gs \<noteq> []
     \<and> (\<forall>x \<in> set gs. Galois_wf x \<and> 1 \<le> poly x
                          \<and> 0 \<le> state_init x \<and> state_init x < 2 ^ field_order x) \<longrightarrow>
      Galois_from_lfsrs gs =
        Inr (map (\<lambda>x. x\<lparr>state := state_init x\<rparr>) gs,
             \<lparr>poly = bit_concat (map (\<lambda>x. (field_order x, poly x)) gs),
              state = bit_concat (map (\<lambda>x. (field_order x, state_init x)) gs),
              state_init = bit_concat (map (\<lambda>x. (field_order x, state_init x)) gs),
              field_order = sum_list (map field_order gs)\<rparr>))"
proof (intro conjI impI)
  assume h: "args \<noteq> []
     \<and> (\<forall>x \<in> set args. LFSR_wf lg x \<and> 1 \<le> poly x \<and> poly x < 2 ^ field_order x
                          \<and> 0 \<le> state_init x \<and> state_init x < 2 ^ field_order x)"
  then have ne: "args \<noteq> []"
    and ok: "\<forall>x \<in> set args. LFSR_wf lg x \<and> 1 \<le> poly x \<and> poly x < 2 ^ field_order x
                \<and> 0 \<le> state_init x \<and> state_init x < 2 ^ field_order x"
    by blast+
  from ok have ok': "\<forall>x \<in> set args. 1 \<le> poly x \<and> poly x < 2 ^ field_order x" by blast
  show "LFSR_from_lfsrs lg args =
        (case LFSR_field_order lg (bit_concat (map (\<lambda>x. (field_order x, poly x)) args)) of
           Inl e \<Rightarrow> Inl e
         | Inr fo \<Rightarrow>
             Inr (map (\<lambda>x. x\<lparr>state := state_init x\<rparr>) args,
                  \<lparr>poly = bit_concat (map (\<lambda>x. (field_order x, poly x)) args),
                   state = bit_concat (map (\<lambda>x. (field_order x, state_init x)) args),
                   state_init = bit_concat (map (\<lambda>x. (field_order x, state_init x)) args),
                   field_order = fo\<rparr>))"
    using ne ok by (rule LFSR_from_lfsrs_fields)
  show "1 \<le> bit_concat (map (\<lambda>x. (field_order x, poly x)) args)"
    using ne ok' by (rule concat_poly_exact(1))
  show "bit_concat (map (\<lambda>x. (field_order x, poly x)) args) < 2 ^ sum_list (map field_order args)"
    using ne ok' by (rule concat_poly_exact(2))
  assume "2 ^ field_order (hd args) < 2 * poly (hd args)"
  with ne ok' show "exact_ceil_log (bit_concat (map (\<lambda>x. (field_order x, poly x)) args))
             = sum_list (map field_order args)"
    by (rule concat_poly_exact(3))
next
  assume h: "gs \<noteq> []
     \<and> (\<forall>x \<in> set gs. Galois_wf x \<and> 1 \<le> poly x
                          \<and> 0 \<le> state_init x \<and> state_init x < 2 ^ field_order x)"
  let ?P = "bit_concat (map (\<lambda>x. (field_order x, poly x)) gs)"
  let ?S = "bit_concat (map (\<lambda>x. (field_order x, state_init x)) gs)"
  have fl: "\<forall>x \<in> set gs. field_order x = floorlog 2 (nat (poly x))"
    using h by (auto simp: Galois_wf_def format_0b_0_length)
  have pos: "\<forall>x \<in> set gs. 0 < field_order x"
    using h format_0b_0_length_pos by (auto simp: Galois_wf_def)
  have fits: "\<forall>x \<in> set gs. poly x < 2 ^ field_order x"
  proof
    fix x assume x: "x \<in> set gs"
    with h have "0 < nat (poly x)" by auto
    then have "nat (poly x) < 2 ^ floorlog 2 (nat (poly x))"
      using floorlog_bounds [of "nat (poly x)" 2] by simp
    with x fl show "poly x < 2 ^ field_order x" by (simp add: nat_less_iff)
  qed
  have rst: "\<forall>x \<in> set gs. Inr (Galois_reset x) = (Inr (x\<lparr>state := state_init x\<rparr>) :: error + register)"
    using h by (simp add: Galois_reset_self)
  from elong_fields [of gs "\<lambda>x. Inr (Galois_reset x)", OF _ rst] h pos fits
  obtain ep es where e:
    "elong_loop (\<lambda>x. Inr (Galois_reset x)) gs [] []
       = Inr (map (\<lambda>x. x\<lparr>state := state_init x\<rparr>) gs, ep, es)"
    "int_base2 ep = Inr ?P" "int_base2 es = Inr ?S"
    by force
  from h obtain a rest where gs: "gs = a # rest" by (cases gs) auto
  with h fl have a: "0 < poly a" "field_order a = floorlog 2 (nat (poly a))" by simp_all
  have b: "\<forall>x \<in> set (a # rest). 0 \<le> poly x \<and> poly x < 2 ^ field_order x"
    using h fits gs by auto
  have lo: "poly a * 2 ^ sum_list (map field_order rest) \<le> ?P"
    and hi: "?P < 2 ^ (field_order a + sum_list (map field_order rest))"
    unfolding gs using concat_poly_bounds [OF b] by simp_all
  have "floorlog 2 (nat ?P) = field_order a + sum_list (map field_order rest)"
    using a lo hi by (rule floorlog_concat)
  moreover have "0 < ?P"
  proof -
    from a(1) have "0 < poly a * 2 ^ sum_list (map field_order rest)" by simp
    with lo show ?thesis by simp
  qed
  ultimately have "length (format_0b 0 ?P) = sum_list (map field_order gs)"
    by (simp add: format_0b_0_length gs)
  then show "Galois_from_lfsrs gs =
        Inr (map (\<lambda>x. x\<lparr>state := state_init x\<rparr>) gs,
             \<lparr>poly = ?P, state = ?S, state_init = ?S,
              field_order = sum_list (map field_order gs)\<rparr>)"
    by (simp add: Galois_from_lfsrs_def e Galois_init_def)
qed

text \<open>
  Two Fibonacci registers with polynomial \<open>0b1011\<close> give polynomial \<open>0b10111011\<close>, for
  which the constructor derives field order 8 where the logarithm is exact; Galois
  registers with polynomials \<open>0b10011\<close> and \<open>0b101\<close> give \<open>0b10011101\<close> and field order 8.
\<close>

theorem from_lfsrs_concatenation_witness:
  "(LFSR_wf exact_ceil_log \<lparr>poly = 11, state = 3, state_init = 1, field_order = 4\<rparr> \<and> (1::int) \<le> 11 \<and> (11::int) < 2 ^ 4
      \<and> (0::int) \<le> 1 \<and> (1::int) < 2 ^ 4
    \<and> LFSR_wf exact_ceil_log \<lparr>poly = 11, state = 2, state_init = 2, field_order = 4\<rparr> \<and> (0::int) \<le> 2 \<and> (2::int) < 2 ^ 4
    \<and> (2::int) ^ 4 < 2 * 11
    \<and> LFSR_field_order exact_ceil_log 187 = Inr 8
    \<and> Galois_wf \<lparr>poly = 19, state = 7, state_init = 1, field_order = 5\<rparr> \<and> (1::int) \<le> 19
      \<and> (1::int) < 2 ^ 5
    \<and> Galois_wf \<lparr>poly = 5, state = 2, state_init = 2, field_order = 3\<rparr> \<and> (1::int) \<le> 5
      \<and> (2::int) < 2 ^ 3)
   \<and> LFSR_from_lfsrs exact_ceil_log [\<lparr>poly = 11, state = 3, state_init = 1, field_order = 4\<rparr>,
        \<lparr>poly = 11, state = 2, state_init = 2, field_order = 4\<rparr>]
       = Inr ([\<lparr>poly = 11, state = 1, state_init = 1, field_order = 4\<rparr>,
               \<lparr>poly = 11, state = 2, state_init = 2, field_order = 4\<rparr>],
              \<lparr>poly = 187, state = 18, state_init = 18, field_order = 8\<rparr>)
   \<and> exact_ceil_log 187 = 8
   \<and> Galois_from_lfsrs [\<lparr>poly = 19, state = 7, state_init = 1, field_order = 5\<rparr>,
        \<lparr>poly = 5, state = 2, state_init = 2, field_order = 3\<rparr>]
       = Inr ([\<lparr>poly = 19, state = 1, state_init = 1, field_order = 5\<rparr>,
               \<lparr>poly = 5, state = 2, state_init = 2, field_order = 3\<rparr>],
              \<lparr>poly = 157, state = 10, state_init = 10, field_order = 8\<rparr>)"
proof -
  have h: "(LFSR_wf exact_ceil_log \<lparr>poly = 11, state = 3, state_init = 1, field_order = 4\<rparr> \<and> (1::int) \<le> 11 \<and> (11::int) < 2 ^ 4
      \<and> (0::int) \<le> 1 \<and> (1::int) < 2 ^ 4
    \<and> LFSR_wf exact_ceil_log \<lparr>poly = 11, state = 2, state_init = 2, field_order = 4\<rparr> \<and> (0::int) \<le> 2 \<and> (2::int) < 2 ^ 4
    \<and> (2::int) ^ 4 < 2 * 11
    \<and> LFSR_field_order exact_ceil_log 187 = Inr 8
    \<and> Galois_wf \<lparr>poly = 19, state = 7, state_init = 1, field_order = 5\<rparr> \<and> (1::int) \<le> 19
      \<and> (1::int) < 2 ^ 5
    \<and> Galois_wf \<lparr>poly = 5, state = 2, state_init = 2, field_order = 3\<rparr> \<and> (1::int) \<le> 5
      \<and> (2::int) < 2 ^ 3)"
    by code_simp
  have h1: "[\<lparr>poly = 11, state = 3, state_init = 1, field_order = 4\<rparr>, \<lparr>poly = 11, state = 2, state_init = 2, field_order = 4\<rparr>] \<noteq> []
     \<and> (\<forall>x \<in> set [\<lparr>poly = 11, state = 3, state_init = 1, field_order = 4\<rparr>, \<lparr>poly = 11, state = 2, state_init = 2, field_order = 4\<rparr>].
           LFSR_wf exact_ceil_log x \<and> 1 \<le> poly x \<and> poly x < 2 ^ field_order x
           \<and> 0 \<le> state_init x \<and> state_init x < 2 ^ field_order x)"
    using h by simp
  have h2: "2 ^ field_order (hd [\<lparr>poly = 11, state = 3, state_init = 1, field_order = 4\<rparr>, \<lparr>poly = 11, state = 2, state_init = 2, field_order = 4\<rparr>])
              < 2 * poly (hd [\<lparr>poly = 11, state = 3, state_init = 1, field_order = 4\<rparr>, \<lparr>poly = 11, state = 2, state_init = 2, field_order = 4\<rparr>])"
    by simp
  have h3: "[\<lparr>poly = 19, state = 7, state_init = 1, field_order = 5\<rparr>, \<lparr>poly = 5, state = 2, state_init = 2, field_order = 3\<rparr>] \<noteq> []
     \<and> (\<forall>x \<in> set [\<lparr>poly = 19, state = 7, state_init = 1, field_order = 5\<rparr>, \<lparr>poly = 5, state = 2, state_init = 2, field_order = 3\<rparr>].
           Galois_wf x \<and> 1 \<le> poly x \<and> 0 \<le> state_init x \<and> state_init x < 2 ^ field_order x)"
    using h by simp
  have P: "bit_concat (map (\<lambda>x. (field_order x, poly x)) [\<lparr>poly = 11, state = 3, state_init = 1, field_order = 4\<rparr>, \<lparr>poly = 11, state = 2, state_init = 2, field_order = 4\<rparr>]) = 187"
    and S: "bit_concat (map (\<lambda>x. (field_order x, state_init x)) [\<lparr>poly = 11, state = 3, state_init = 1, field_order = 4\<rparr>, \<lparr>poly = 11, state = 2, state_init = 2, field_order = 4\<rparr>]) = 18"
    and n: "sum_list (map field_order [\<lparr>poly = 11, state = 3, state_init = 1, field_order = 4\<rparr>, \<lparr>poly = 11, state = 2, state_init = 2, field_order = 4\<rparr>]) = 8"
    by (simp_all add: bit_concat_def)
  have fo: "LFSR_field_order exact_ceil_log 187 = Inr 8" using h by simp
  note t = from_lfsrs_concatenation
    [of "[\<lparr>poly = 11, state = 3, state_init = 1, field_order = 4\<rparr>, \<lparr>poly = 11, state = 2, state_init = 2, field_order = 4\<rparr>]" exact_ceil_log
        "[\<lparr>poly = 19, state = 7, state_init = 1, field_order = 5\<rparr>, \<lparr>poly = 5, state = 2, state_init = 2, field_order = 3\<rparr>]"]
  from t h1 have "LFSR_from_lfsrs exact_ceil_log [\<lparr>poly = 11, state = 3, state_init = 1, field_order = 4\<rparr>, \<lparr>poly = 11, state = 2, state_init = 2, field_order = 4\<rparr>] =
        (case LFSR_field_order exact_ceil_log
                (bit_concat (map (\<lambda>x. (field_order x, poly x)) [\<lparr>poly = 11, state = 3, state_init = 1, field_order = 4\<rparr>, \<lparr>poly = 11, state = 2, state_init = 2, field_order = 4\<rparr>])) of
           Inl e \<Rightarrow> Inl e
         | Inr fo \<Rightarrow>
             Inr (map (\<lambda>x. x\<lparr>state := state_init x\<rparr>) [\<lparr>poly = 11, state = 3, state_init = 1, field_order = 4\<rparr>, \<lparr>poly = 11, state = 2, state_init = 2, field_order = 4\<rparr>],
                  \<lparr>poly = bit_concat (map (\<lambda>x. (field_order x, poly x)) [\<lparr>poly = 11, state = 3, state_init = 1, field_order = 4\<rparr>, \<lparr>poly = 11, state = 2, state_init = 2, field_order = 4\<rparr>]),
                   state = bit_concat (map (\<lambda>x. (field_order x, state_init x)) [\<lparr>poly = 11, state = 3, state_init = 1, field_order = 4\<rparr>, \<lparr>poly = 11, state = 2, state_init = 2, field_order = 4\<rparr>]),
                   state_init = bit_concat (map (\<lambda>x. (field_order x, state_init x)) [\<lparr>poly = 11, state = 3, state_init = 1, field_order = 4\<rparr>, \<lparr>poly = 11, state = 2, state_init = 2, field_order = 4\<rparr>]),
                   field_order = fo\<rparr>))"
    by blast
  then have a: "LFSR_from_lfsrs exact_ceil_log [\<lparr>poly = 11, state = 3, state_init = 1, field_order = 4\<rparr>,
        \<lparr>poly = 11, state = 2, state_init = 2, field_order = 4\<rparr>]
       = Inr ([\<lparr>poly = 11, state = 1, state_init = 1, field_order = 4\<rparr>,
               \<lparr>poly = 11, state = 2, state_init = 2, field_order = 4\<rparr>],
              \<lparr>poly = 187, state = 18, state_init = 18, field_order = 8\<rparr>)"
    unfolding P S fo by simp
  from t h1 h2 have "exact_ceil_log (bit_concat (map (\<lambda>x. (field_order x, poly x)) [\<lparr>poly = 11, state = 3, state_init = 1, field_order = 4\<rparr>, \<lparr>poly = 11, state = 2, state_init = 2, field_order = 4\<rparr>]))
             = sum_list (map field_order [\<lparr>poly = 11, state = 3, state_init = 1, field_order = 4\<rparr>, \<lparr>poly = 11, state = 2, state_init = 2, field_order = 4\<rparr>])"
    by blast
  then have e: "exact_ceil_log 187 = 8" unfolding P n .
  from t h3 have b: "Galois_from_lfsrs [\<lparr>poly = 19, state = 7, state_init = 1, field_order = 5\<rparr>,
        \<lparr>poly = 5, state = 2, state_init = 2, field_order = 3\<rparr>]
       = Inr ([\<lparr>poly = 19, state = 1, state_init = 1, field_order = 5\<rparr>,
               \<lparr>poly = 5, state = 2, state_init = 2, field_order = 3\<rparr>],
              \<lparr>poly = 157, state = 10, state_init = 10, field_order = 8\<rparr>)"
    by (simp add: bit_concat_def)
  from e b have "exact_ceil_log 187 = 8
   \<and> Galois_from_lfsrs [\<lparr>poly = 19, state = 7, state_init = 1, field_order = 5\<rparr>,
        \<lparr>poly = 5, state = 2, state_init = 2, field_order = 3\<rparr>]
       = Inr ([\<lparr>poly = 19, state = 1, state_init = 1, field_order = 5\<rparr>,
               \<lparr>poly = 5, state = 2, state_init = 2, field_order = 3\<rparr>],
              \<lparr>poly = 157, state = 10, state_init = 10, field_order = 8\<rparr>)" by (rule conjI)
  with a have "LFSR_from_lfsrs exact_ceil_log [\<lparr>poly = 11, state = 3, state_init = 1, field_order = 4\<rparr>,
        \<lparr>poly = 11, state = 2, state_init = 2, field_order = 4\<rparr>]
       = Inr ([\<lparr>poly = 11, state = 1, state_init = 1, field_order = 4\<rparr>,
               \<lparr>poly = 11, state = 2, state_init = 2, field_order = 4\<rparr>],
              \<lparr>poly = 187, state = 18, state_init = 18, field_order = 8\<rparr>)
   \<and> exact_ceil_log 187 = 8
   \<and> Galois_from_lfsrs [\<lparr>poly = 19, state = 7, state_init = 1, field_order = 5\<rparr>,
        \<lparr>poly = 5, state = 2, state_init = 2, field_order = 3\<rparr>]
       = Inr ([\<lparr>poly = 19, state = 1, state_init = 1, field_order = 5\<rparr>,
               \<lparr>poly = 5, state = 2, state_init = 2, field_order = 3\<rparr>],
              \<lparr>poly = 157, state = 10, state_init = 10, field_order = 8\<rparr>)" by (rule conjI)
  with h show ?thesis by (rule conjI)
qed

section \<open>The field orders in exact arithmetic\<close>

text \<open>
  The Galois field order is the bit length of the polynomial. Where the logarithm of the
  Fibonacci constructor is evaluated exactly, the Fibonacci field order is \<open>\<lceil>log 2 p\<rceil>\<close>,
  and on a power of two it is one less than the Galois field order. What the
  double-precision quotient of the source rounds to is the parameter of the embedding.
\<close>

lemma Galois_field_order_bit_length:
  "1 \<le> p \<Longrightarrow> field_order (Galois_init p s) = floorlog 2 (nat p)"
  by (simp add: format_0b_0_length)

lemma exact_field_orders_on_power_of_two:
  assumes "LFSR_init exact_ceil_log (2 ^ k) s = Inr r"
  shows "field_order r = k" "field_order (Galois_init (2 ^ k) s) = Suc k"
proof -
  have p: "(0::int) < 2 ^ k" by simp
  have n: "nat (2 ^ k) = (2::nat) ^ k" by (simp add: nat_power_eq)
  have c: "ceillog2 (2 ^ k) = k" by (rule ceillog2_2_power)
  from LFSR_init_fields(4) [OF assms] have "LFSR_field_order exact_ceil_log (2 ^ k) = Inr (field_order r)" .
  moreover have "(2::int) ^ k \<noteq> 1" if "0 < k"
  proof -
    from that have "(1::int) < 2 ^ k" by (intro one_less_power) simp_all
    then show ?thesis by simp
  qed
  ultimately show "field_order r = k"
    by (cases "k = 0") (auto simp: LFSR_field_order_def exact_ceil_log_def n c split: if_splits)
  have "field_order (Galois_init (2 ^ k) s) = floorlog 2 (nat (2 ^ k))"
    using p by (simp only: Galois_init_fields format_0b_0_length)
  moreover have "floorlog 2 ((2::nat) ^ k) = Suc k"
    using floorlog_power [of 1 2 k] by (simp add: floorlog_def)
  ultimately show "field_order (Galois_init (2 ^ k) s) = Suc k" by (simp only: n)
qed

end
